theory Spec2Isabelle
  imports Complex_Main "HOL-Library.Word" "HOL-Library.Log_Nat"
begin

text \<open>
  A shallow embedding of \<^verbatim>\<open>mml.cpp\<close>, the command line MML player: the sequencer
  (\<^verbatim>\<open>MMLPlayer\<close>), the level selection and the thresholds of the wavetable bank
  (\<^verbatim>\<open>SquareWavetable\<close>) and the renderer (\<^verbatim>\<open>GenerateSongSquareWave\<close>), followed by the
  properties proved of them. Integer members and locals of type \<^verbatim>\<open>int\<close> are unbounded
  integers here: from \<^verbatim>\<open>Load\<close> on, \<^verbatim>\<open>counts\<close> stays between -1 and 320, \<^verbatim>\<open>tempo\<close>
  and \<^verbatim>\<open>octave\<close> are single digits and \<^verbatim>\<open>position\<close> is at most the length of the song,
  so that no \<^verbatim>\<open>int\<close> overflows for a song shorter than \<open>2\<^sup>3\<^sup>1 - 1\<close> characters. The
  32-bit unsigned values (phase rates, the phase accumulator, the thresholds) are words.
\<close>

section \<open>Constants of mml.cpp\<close>

type_synonym u32 = "32 word"
type_synonym i16 = "16 word"

definition NUM_OCTAVES :: int where "NUM_OCTAVES = 3"
definition NOTES_PER_OCTAVE :: int where "NOTES_PER_OCTAVE = 12"
definition NOTE_A_440 :: int where "NOTE_A_440 = 21"
definition SAMPLE_RATE :: int where "SAMPLE_RATE = 44100"
definition TICK_LENGTH :: nat where "TICK_LENGTH = 2700"
definition WAVETABLE_NUM_TABLES :: nat where "WAVETABLE_NUM_TABLES = 8"

text \<open>\<^verbatim>\<open>letterToNoteNumber\<close> and \<^verbatim>\<open>lengthNumberToTickCount\<close>, the two constant arrays.\<close>

definition letterToNoteNumber :: "int list" where
  "letterToNoteNumber = [9, 11, 0, 2, 4, 5, 7]"

definition lengthNumberToTickCount :: "int list" where
  "lengthNumberToTickCount = [1, 2, 3, 4, 6, 8, 12, 16, 24, 32]"

section \<open>The sequencer: class MMLPlayer\<close>

text \<open>
  A \<^verbatim>\<open>throw std::domain_error(msg)\<close> is the value \<open>domain_error msg\<close>. The two
  unchecked subscripts of the class (\<^verbatim>\<open>song[position++]\<close> on the vector and
  \<^verbatim>\<open>noteToPhaseRate[...]\<close> on the array of 36 entries) are undefined behaviour in C++
  when the index is outside the container; the model makes each of them a result of its
  own, carrying the offending index, so that no theorem below rests on what such a read
  would return.
\<close>

datatype error =
    domain_error string
  | song_index_out_of_range int
  | note_index_out_of_range int

text \<open>
  The member \<^verbatim>\<open>output\<close> is \<open>output_rate\<close> here and the local \<^verbatim>\<open>curr\<close> of \<^verbatim>\<open>Tick\<close> is
  \<open>cur\<close>: both names are taken in Isabelle.
\<close>

record MMLPlayer =
  noteToPhaseRate :: "u32 list"
  song :: "char list"
  position :: int
  octave :: int
  output_rate :: u32
  tempo :: int
  counts :: int

text \<open>
  The constructor fills \<^verbatim>\<open>noteToPhaseRate\<close>, an array of 36 entries, with
  double-precision arithmetic and \<^verbatim>\<open>pow\<close>; the table it leaves behind is the argument
  \<open>nt\<close> here. The other members get the values of the initialiser list.
\<close>

definition MMLPlayer_init :: "u32 list \<Rightarrow> MMLPlayer" where
  "MMLPlayer_init nt =
     \<lparr>noteToPhaseRate = nt, song = [], position = 0, octave = 1, output_rate = 0,
      tempo = 4, counts = 0\<rparr>"

definition IsDone :: "MMLPlayer \<Rightarrow> bool" where
  "IsDone p \<longleftrightarrow> position p < 0"

text \<open>\<^verbatim>\<open>toupper\<close> in the "C" locale: the 26 lower-case letters move, nothing else does.\<close>

definition toupper :: "char \<Rightarrow> char" where
  "toupper c =
     (case map_of (zip ''abcdefghijklmnopqrstuvwxyz'' ''ABCDEFGHIJKLMNOPQRSTUVWXYZ'') c of
        None \<Rightarrow> c
      | Some u \<Rightarrow> u)"

definition Load :: "string \<Rightarrow> MMLPlayer \<Rightarrow> MMLPlayer" where
  "Load songstr p =
     p\<lparr>song := map toupper songstr @ [CHR 0x00], octave := 1, position := 0,
       output_rate := 0, counts := 0, tempo := 4\<rparr>"

text \<open>The three-argument constructor: \<^verbatim>\<open>MMLPlayer(sampleRate)\<close>, then \<^verbatim>\<open>Load\<close>.\<close>

definition MMLPlayer_new :: "u32 list \<Rightarrow> string \<Rightarrow> MMLPlayer" where
  "MMLPlayer_new nt songstr = Load songstr (MMLPlayer_init nt)"

text \<open>\<^verbatim>\<open>song[position]\<close>, and \<^verbatim>\<open>noteToPhaseRate[i]\<close> against the declared size of the array.\<close>

definition song_at :: "MMLPlayer \<Rightarrow> error + char" where
  "song_at p =
     (if 0 \<le> position p \<and> position p < int (length (song p))
      then Inr (song p ! nat (position p))
      else Inl (song_index_out_of_range (position p)))"

definition note_at :: "MMLPlayer \<Rightarrow> int \<Rightarrow> error + u32" where
  "note_at p i =
     (if 0 \<le> i \<and> i < NUM_OCTAVES * NOTES_PER_OCTAVE
      then Inr (noteToPhaseRate p ! nat i)
      else Inl (note_index_out_of_range i))"

text \<open>
  \<^verbatim>\<open>char next = song[position++] - '0'\<close>: the difference is narrowed to a (signed) char,
  here an 8-bit word read with \<open>sint\<close>, then compared with the bounds as an int.
\<close>

definition ReadNumber :: "int \<Rightarrow> int \<Rightarrow> string \<Rightarrow> MMLPlayer \<Rightarrow> error + (int \<times> MMLPlayer)" where
  "ReadNumber mn mx errorstr p =
     (case song_at p of
        Inl e \<Rightarrow> Inl e
      | Inr c \<Rightarrow>
          let next = sint ((of_char c :: 8 word) - 48);
              p' = p\<lparr>position := position p + 1\<rparr>
          in if next \<ge> mn \<and> next \<le> mx then Inr (next, p') else Inl (domain_error errorstr))"

text \<open>
  The note case of the switch in \<^verbatim>\<open>Tick\<close> (cases 'A' to 'G'), entered with the letter
  already consumed.
\<close>

definition note_command :: "char \<Rightarrow> MMLPlayer \<Rightarrow> error + MMLPlayer" where
  "note_command cur p =
     (let pitch = letterToNoteNumber ! (of_char cur - of_char (CHR ''A'')) in
      case song_at p of
        Inl e \<Rightarrow> Inl e
      | Inr next \<Rightarrow>
          let p1 = p\<lparr>position := position p + 1\<rparr>;
              pitch1 = (if next = CHR ''#'' \<or> next = CHR ''+'' then pitch + 1
                        else if next = CHR ''-'' then pitch - 1 else pitch);
              p2 = (if next = CHR ''#'' \<or> next = CHR ''+'' \<or> next = CHR ''-'' then p1
                    else p1\<lparr>position := position p1 - 1\<rparr>);
              pitch2 = (if pitch1 \<ge> NUM_OCTAVES * NOTES_PER_OCTAVE then pitch1 - 1
                        else if pitch1 < 0 then pitch1 + 1 else pitch1)
          in (case ReadNumber 0 9 ''Inavlid count number in note command in song string'' p2 of
                Inl e \<Rightarrow> Inl e
              | Inr (n, p3) \<Rightarrow>
                 let p4 = p3\<lparr>counts := (tempo p3 + 1) * lengthNumberToTickCount ! nat n\<rparr>
                 in (case note_at p4 (pitch2 + octave p4 * 12) of
                       Inl e \<Rightarrow> Inl e
                     | Inr r \<Rightarrow> Inr (p4\<lparr>output_rate := r\<rparr>))))"

definition is_note_letter :: "char \<Rightarrow> bool" where
  "is_note_letter c \<longleftrightarrow> c \<in> set ''ABCDEFG''"

definition is_space :: "char \<Rightarrow> bool" where
  "is_space c \<longleftrightarrow> c = CHR '' '' \<or> c = CHR 0x0A \<or> c = CHR 0x0D \<or> c = CHR 0x09"

text \<open>
  One pass through the body of the \<^verbatim>\<open>while (!done)\<close> loop of \<^verbatim>\<open>Tick\<close>: the switch
  on \<^verbatim>\<open>curr = song[position++]\<close>. The result carries the \<^verbatim>\<open>done\<close> flag and the
  player as the pass leaves it.
\<close>

definition Tick_switch :: "MMLPlayer \<Rightarrow> error + (bool \<times> MMLPlayer)" where
  "Tick_switch p =
     (case song_at p of
        Inl e \<Rightarrow> Inl e
      | Inr cur \<Rightarrow>
          let p1 = p\<lparr>position := position p + 1\<rparr> in
          if cur = CHR 0x00 then Inr (True, p1\<lparr>position := - 1, output_rate := 0\<rparr>)
          else if cur = CHR ''>'' then
            Inr (False, if octave p1 < NUM_OCTAVES - 1 then p1\<lparr>octave := octave p1 + 1\<rparr> else p1)
          else if cur = CHR ''<'' then
            Inr (False, if octave p1 > 0 then p1\<lparr>octave := octave p1 - 1\<rparr> else p1)
          else if cur = CHR ''O'' then
            (case ReadNumber 0 (NUM_OCTAVES - 1) ''Invalid O command in song string'' p1 of
               Inl e \<Rightarrow> Inl e
             | Inr (n, p2) \<Rightarrow> Inr (False, p2\<lparr>octave := n\<rparr>))
          else if cur = CHR ''T'' then
            (case ReadNumber 0 9 ''Invalid T command in song string'' p1 of
               Inl e \<Rightarrow> Inl e
             | Inr (n, p2) \<Rightarrow> Inr (False, p2\<lparr>tempo := n\<rparr>))
          else if is_space cur then Inr (False, p1)
          else if cur = CHR ''R'' then
            (case ReadNumber 0 9 ''Invalid R command in song string'' p1 of
               Inl e \<Rightarrow> Inl e
             | Inr (n, p2) \<Rightarrow>
                 Inr (True, p2\<lparr>counts := (tempo p2 + 1) * lengthNumberToTickCount ! nat n,
                               output_rate := 0\<rparr>))
          else if is_note_letter cur then
            (case note_command cur p1 of Inl e \<Rightarrow> Inl e | Inr p2 \<Rightarrow> Inr (True, p2))
          else Inl (domain_error ''Invalid character in song string''))"

lemma ReadNumber_Inr:
  assumes "ReadNumber mn mx s p = Inr (n, p')"
  shows "p' = p\<lparr>position := position p + 1\<rparr>" and "mn \<le> n" and "n \<le> mx"
    and "0 \<le> position p" and "position p < int (length (song p))"
    and "n = sint ((of_char (song p ! nat (position p)) :: 8 word) - 48)"
  using assms
  by (auto simp: ReadNumber_def song_at_def Let_def split: if_splits sum.splits)

lemma note_command_progress:
  assumes "note_command c p = Inr p'"
  shows "song p' = song p \<and> noteToPhaseRate p' = noteToPhaseRate p \<and> 0 \<le> position p \<and>
         position p < position p' \<and> position p' \<le> int (length (song p))"
  using assms
  by (auto simp: note_command_def Let_def song_at_def ReadNumber_def
           split: sum.splits if_splits prod.splits)

lemma Tick_switch_progress:
  assumes "Tick_switch p = Inr (d, p')"
  shows "song p' = song p \<and> noteToPhaseRate p' = noteToPhaseRate p \<and> 0 \<le> position p \<and>
         (d \<and> position p' = - 1 \<or>
          position p < position p' \<and> position p' \<le> int (length (song p)))"
proof -
  from assms obtain cur where cur: "song_at p = Inr cur"
    by (auto simp: Tick_switch_def split: sum.splits)
  then have b: "0 \<le> position p" "position p < int (length (song p))"
    by (auto simp: song_at_def split: if_splits)
  let ?p1 = "p\<lparr>position := position p + 1\<rparr>"
  have rn: "song q = song p \<and> noteToPhaseRate q = noteToPhaseRate p \<and>
            position p < position q \<and> position q \<le> int (length (song p))"
    if "ReadNumber mn mx s ?p1 = Inr (n, q)" for mn mx s n q
    using ReadNumber_Inr(1,5) [OF that] b by auto
  have nc: "song q = song p \<and> noteToPhaseRate q = noteToPhaseRate p \<and>
            position p < position q \<and> position q \<le> int (length (song p))"
    if "note_command c ?p1 = Inr q" for c q
    using note_command_progress [OF that] by auto
  show ?thesis
    using assms cur b
    by (auto simp: Tick_switch_def Let_def split: if_splits sum.splits prod.splits
             dest: rn nc)
qed

text \<open>The \<^verbatim>\<open>while (!done)\<close> loop itself.\<close>

function Tick_loop :: "MMLPlayer \<Rightarrow> error + MMLPlayer" where
  "Tick_loop p =
     (case Tick_switch p of
        Inl e \<Rightarrow> Inl e
      | Inr (done, p') \<Rightarrow> if done then Inr p' else Tick_loop p')"
  by pat_completeness auto

termination Tick_loop
proof (relation "measure (\<lambda>p. length (song p) - nat (position p))")
  show "wf (measure (\<lambda>p. length (song p) - nat (position p)))"
    by simp
next
  fix p x2 d p'
  assume "Tick_switch p = Inr x2" "(d, p') = x2" "\<not> d"
  then have "Tick_switch p = Inr (d, p')"
    by simp
  from Tick_switch_progress [OF this] \<open>\<not> d\<close>
  show "(p', p) \<in> measure (\<lambda>p. length (song p) - nat (position p))"
    by auto
qed

declare Tick_loop.simps [simp del]

text \<open>\<^verbatim>\<open>Tick\<close>: the countdown, the early return when done, then the loop.\<close>

definition Tick :: "MMLPlayer \<Rightarrow> error + (u32 \<times> MMLPlayer)" where
  "Tick p0 =
     (let p = p0\<lparr>counts := counts p0 - 1\<rparr> in
      if counts p > 0 then Inr (output_rate p, p)
      else if position p < 0 then Inr (0, p)
      else case Tick_loop p of Inl e \<Rightarrow> Inl e | Inr p' \<Rightarrow> Inr (output_rate p', p'))"

lemma Tick_loop_progress:
  "Tick_loop p = Inr p' \<Longrightarrow>
     song p' = song p \<and> noteToPhaseRate p' = noteToPhaseRate p \<and> 0 \<le> position p \<and>
     (position p' = - 1 \<or> position p < position p' \<and> position p' \<le> int (length (song p)))"
proof (induction p rule: Tick_loop.induct)
  case (1 p)
  from "1.prems" obtain d q where sw: "Tick_switch p = Inr (d, q)"
    by (subst (asm) Tick_loop.simps) (auto split: sum.splits)
  note pr = Tick_switch_progress [OF sw]
  show ?case
  proof (cases d)
    case True
    with sw "1.prems" have "p' = q"
      by (subst (asm) Tick_loop.simps) simp
    with pr show ?thesis by auto
  next
    case False
    with sw "1.prems" have "Tick_loop q = Inr p'"
      by (subst (asm) Tick_loop.simps) simp
    from "1.IH" [OF sw refl False this] pr False show ?thesis
      by auto
  qed
qed

section \<open>The wavetable bank: SquareWavetable::GetTable\<close>

text \<open>
  \<^verbatim>\<open>std::lower_bound(first, last, val)\<close> on a random-access range, as the standard
  library implements it: bisection on the length of the range, comparing with \<open><\<close>.
  \<open>first\<close> is an index into \<open>xs\<close> and \<open>len\<close> the number of elements still in play.
\<close>

function lower_bound :: "'a::linorder list \<Rightarrow> nat \<Rightarrow> nat \<Rightarrow> 'a \<Rightarrow> nat" where
  "lower_bound xs first len val =
     (if len > 0 then
        let half = len div 2; middle = first + half in
        if xs ! middle < val then lower_bound xs (middle + 1) (len - half - 1) val
        else lower_bound xs first half val
      else first)"
  by pat_completeness auto

termination lower_bound
  by (relation "measure (\<lambda>(xs, first, len, val). len)") auto

declare lower_bound.simps [simp del]

text \<open>
  \<^verbatim>\<open>GetTable\<close> searches \<^verbatim>\<open>[topPhaseRate.begin(), topPhaseRate.end() - 1)\<close>, the first
  seven thresholds, and returns the distance of the result from \<^verbatim>\<open>begin()\<close>.
\<close>

definition GetTable :: "u32 list \<Rightarrow> u32 \<Rightarrow> nat" where
  "GetTable topPhaseRate phaseRate =
     lower_bound topPhaseRate 0 (WAVETABLE_NUM_TABLES - 1) phaseRate"

section \<open>The wavetable bank: the thresholds of SquareWavetable::Generate\<close>

text \<open>
  \<^verbatim>\<open>Generate\<close> computes \<^verbatim>\<open>topPhaseRate[tableNum]\<close> in single precision. A \<^verbatim>\<open>float\<close> is
  modelled by the rational it denotes, and every operation by the exact result rounded
  with \<open>fl32\<close>: IEEE 754 binary32, round to nearest, ties to even, 24 significant bits,
  gradual underflow below \<open>2\<^sup>-\<^sup>1\<^sup>2\<^sup>6\<close>. Overflow to infinity is not modelled: no value in
  \<open>threshold\<close> reaches \<open>2\<^sup>1\<^sup>2\<^sup>8\<close> for a non-zero 32-bit \<^verbatim>\<open>sampleRate\<close>. \<open>binade x\<close> is
  \<open>\<lfloor>log\<^sub>2 \<bar>x\<bar>\<rfloor>\<close>.
\<close>

definition binade :: "rat \<Rightarrow> int" where
  "binade x = (if 1 \<le> \<bar>x\<bar> then bitlen \<lfloor>\<bar>x\<bar>\<rfloor> - 1 else - bitlen (\<lceil>1 / \<bar>x\<bar>\<rceil> - 1))"

definition round_even :: "rat \<Rightarrow> int" where
  "round_even q =
     (let f = \<lfloor>q\<rfloor>; d = q - of_int f
      in if d < 1 / 2 then f else if 1 / 2 < d then f + 1 else if even f then f else f + 1)"

definition pow2 :: "int \<Rightarrow> rat" where
  "pow2 k = (if 0 \<le> k then 2 ^ nat k else 1 / 2 ^ nat (- k))"

definition fl32 :: "rat \<Rightarrow> rat" where
  "fl32 x =
     (if x = 0 then 0
      else let ulp = pow2 (max (binade x) (- 126) - 23)
           in of_int (round_even (x / ulp)) * ulp)"

text \<open>
  \<^verbatim>\<open>(uint32_t)x\<close> for a float: truncation towards zero, undefined (\<open>None\<close>) when the
  truncated value is not a \<^verbatim>\<open>uint32_t\<close>.
\<close>

definition float_to_u32 :: "rat \<Rightarrow> u32 option" where
  "float_to_u32 x =
     (let t = (if 0 \<le> x then \<lfloor>x\<rfloor> else \<lceil>x\<rceil>)
      in if 0 \<le> t \<and> t < 2 ^ 32 then Some (word_of_int t) else None)"

definition UINT32_MAX :: u32 where "UINT32_MAX = - 1"

definition WAVETABLE_BASE_FREQ :: rat where "WAVETABLE_BASE_FREQ = 40"

text \<open>
  \<^verbatim>\<open>(uint32_t)(UINT32_MAX * 2 * frequency / sampleRate)\<close>. The product \<^verbatim>\<open>UINT32_MAX * 2\<close>
  is taken in \<^verbatim>\<open>uint32_t\<close> and wraps to \<open>2\<^sup>3\<^sup>2 - 2\<close>; it is then converted to
  \<^verbatim>\<open>float\<close>, as \<^verbatim>\<open>sampleRate\<close> is. A zero \<^verbatim>\<open>sampleRate\<close> gives an infinity, whose
  conversion is undefined.
\<close>

definition threshold :: "int \<Rightarrow> rat \<Rightarrow> u32 option" where
  "threshold sampleRate frequency =
     (if sampleRate = 0 then None
      else float_to_u32
             (fl32 (fl32 (fl32 (of_int (uint (UINT32_MAX * 2))) * frequency)
                    / fl32 (of_int sampleRate))))"

text \<open>
  The loop over \<^verbatim>\<open>tableNum\<close>, as far as the thresholds go (the sample tables, sums of
  \<^verbatim>\<open>sinf\<close>, are not modelled): the second argument counts the tables still to fill,
  and \<^verbatim>\<open>frequency *= 2\<close> ends each pass.
\<close>

fun Generate_loop :: "int \<Rightarrow> nat \<Rightarrow> rat \<Rightarrow> u32 list option" where
  "Generate_loop sampleRate 0 frequency = Some []"
| "Generate_loop sampleRate (Suc n) frequency =
     (case threshold sampleRate frequency of
        None \<Rightarrow> None
      | Some t \<Rightarrow> map_option ((#) t) (Generate_loop sampleRate n (fl32 (frequency * 2))))"

definition Generate_topPhaseRate :: "int \<Rightarrow> u32 list option" where
  "Generate_topPhaseRate sampleRate =
     Generate_loop sampleRate WAVETABLE_NUM_TABLES WAVETABLE_BASE_FREQ"

section \<open>The renderer: GenerateSongSquareWave\<close>

text \<open>
  The samples of a sounding tick come out of \<^verbatim>\<open>Lookup\<close>, single-precision arithmetic on
  tables built with \<^verbatim>\<open>sinf\<close>. The renderer is modelled over any function \<open>pcm\<close> standing
  for \<^verbatim>\<open>(int16_t)(16384 * wavetable.Lookup(phase, tableNum))\<close>; the phase accumulator
  is the 32-bit word of the source and wraps as it does there. \<open>tick_samples\<close> is the
  inner \<^verbatim>\<open>for\<close> loop, its third argument the number of iterations still to run.
\<close>

fun tick_samples ::
  "(u32 \<Rightarrow> nat \<Rightarrow> i16) \<Rightarrow> nat \<Rightarrow> nat \<Rightarrow> u32 \<Rightarrow> u32 \<Rightarrow> i16 list \<Rightarrow> i16 list \<times> u32" where
  "tick_samples pcm tableNum 0 phaseRate phase data = (data, phase)"
| "tick_samples pcm tableNum (Suc n) phaseRate phase data =
     tick_samples pcm tableNum n phaseRate (phase + phaseRate) (data @ [pcm phase tableNum])"

definition remaining :: "MMLPlayer \<Rightarrow> nat" where
  "remaining p = (if position p < 0 then 0 else Suc (length (song p) - nat (position p)))"

lemma Tick_decreases:
  assumes "Tick p = Inr (r, p')" and "\<not> IsDone p"
  shows "(p', p) \<in> measures [remaining, \<lambda>p. nat (counts p)]"
proof (cases "counts p - 1 > 0")
  case True
  with assms have "p' = p\<lparr>counts := counts p - 1\<rparr>"
    by (auto simp: Tick_def Let_def)
  with True show ?thesis
    by (auto simp: remaining_def)
next
  case False
  let ?q = "p\<lparr>counts := counts p - 1\<rparr>"
  from False assms have "Tick_loop ?q = Inr p'"
    by (auto simp: Tick_def Let_def IsDone_def split: sum.splits)
  from Tick_loop_progress [OF this] assms(2) show ?thesis
    by (auto simp: remaining_def IsDone_def)
qed

text \<open>
  The outer loop, \<^verbatim>\<open>for (int i = 0; !player.IsDone(); i++)\<close>; the counter \<^verbatim>\<open>i\<close> is
  never read and is left out (it counts the ticks, and stays an \<^verbatim>\<open>int\<close> for less than
  \<open>2\<^sup>3\<^sup>1\<close> of them). An exception thrown by \<^verbatim>\<open>Tick\<close> leaves the function, and
  the vector \<^verbatim>\<open>data\<close> with it: the result is the error alone.
\<close>

function song_loop ::
  "u32 list \<Rightarrow> (u32 \<Rightarrow> nat \<Rightarrow> i16) \<Rightarrow> MMLPlayer \<Rightarrow> u32 \<Rightarrow> i16 list \<Rightarrow> error + i16 list" where
  "song_loop topPhaseRate pcm player phase data =
     (if IsDone player then Inr data
      else case Tick player of
             Inl e \<Rightarrow> Inl e
           | Inr (phaseRate, player') \<Rightarrow>
               let tableNum = GetTable topPhaseRate phaseRate in
               if phaseRate = 0
               then song_loop topPhaseRate pcm player' phase (data @ replicate TICK_LENGTH 0)
               else (case tick_samples pcm tableNum TICK_LENGTH phaseRate phase data of
                       (data', phase') \<Rightarrow> song_loop topPhaseRate pcm player' phase' data'))"
  by pat_completeness auto

termination song_loop
proof (relation "inv_image (measures [remaining, \<lambda>p. nat (counts p)]) (\<lambda>(t, f, p, ph, d). p)")
  show "wf (inv_image (measures [remaining, \<lambda>p. nat (counts p)]) (\<lambda>(t, f, p, ph, d). p))"
    by simp
qed (use Tick_decreases in \<open>auto simp del: measures_less measures_lesseq\<close>)

declare song_loop.simps [simp del]

text \<open>
  \<^verbatim>\<open>GenerateSongSquareWave(songstr, len)\<close>. The string is the \<^verbatim>\<open>len\<close> characters at
  \<^verbatim>\<open>songstr\<close>. The two objects the function builds first are arguments here, as far as
  the loop reads them: \<open>topPhaseRate\<close> of \<^verbatim>\<open>SquareWavetable(SAMPLE_RATE)\<close> and
  \<open>nt\<close>, the note table of \<^verbatim>\<open>MMLPlayer(SAMPLE_RATE, ...)\<close>.
\<close>

definition GenerateSongSquareWave ::
  "u32 list \<Rightarrow> u32 list \<Rightarrow> (u32 \<Rightarrow> nat \<Rightarrow> i16) \<Rightarrow> string \<Rightarrow> error + i16 list" where
  "GenerateSongSquareWave topPhaseRate nt pcm songstr =
     song_loop topPhaseRate pcm (MMLPlayer_new nt songstr) 0 []"

section \<open>What the renderer asks of the sequencer\<close>

text \<open>
  \<open>song_ticks\<close> is the sequence of phase rates that the loop of
  \<^verbatim>\<open>GenerateSongSquareWave\<close> obtains from \<^verbatim>\<open>Tick\<close>, one per pass, until \<^verbatim>\<open>IsDone\<close>;
  \<open>tick_block\<close> is what one pass appends for a phase rate, with the phase it leaves, and
  \<open>render_ticks\<close> the samples of a whole sequence of phase rates.
\<close>

function song_ticks :: "MMLPlayer \<Rightarrow> error + u32 list" where
  "song_ticks player =
     (if IsDone player then Inr []
      else case Tick player of
             Inl e \<Rightarrow> Inl e
           | Inr (phaseRate, player') \<Rightarrow>
               (case song_ticks player' of Inl e \<Rightarrow> Inl e | Inr rs \<Rightarrow> Inr (phaseRate # rs)))"
  by pat_completeness auto

termination song_ticks
proof (relation "measures [remaining, \<lambda>p. nat (counts p)]")
  show "wf (measures [remaining, \<lambda>p. nat (counts p)])"
    by simp
qed (use Tick_decreases in \<open>auto simp del: measures_less measures_lesseq\<close>)

declare song_ticks.simps [simp del]

definition tick_block :: "u32 list \<Rightarrow> (u32 \<Rightarrow> nat \<Rightarrow> i16) \<Rightarrow> u32 \<Rightarrow> u32 \<Rightarrow> i16 list \<times> u32" where
  "tick_block topPhaseRate pcm phaseRate phase =
     (if phaseRate = 0 then (replicate TICK_LENGTH 0, phase)
      else tick_samples pcm (GetTable topPhaseRate phaseRate) TICK_LENGTH phaseRate phase [])"

fun render_ticks :: "u32 list \<Rightarrow> (u32 \<Rightarrow> nat \<Rightarrow> i16) \<Rightarrow> u32 list \<Rightarrow> u32 \<Rightarrow> i16 list" where
  "render_ticks topPhaseRate pcm [] phase = []"
| "render_ticks topPhaseRate pcm (r # rs) phase =
     (case tick_block topPhaseRate pcm r phase of
        (block, phase') \<Rightarrow> block @ render_ticks topPhaseRate pcm rs phase')"

section \<open>The notation, read as a list of events\<close>

text \<open>
  The reading of section 4.2 of the specification: the text is a list of characters, the
  commands are consumed from its head, and a song is the list of its notes and rests,
  each with its phase rate and its number of ticks \<open>(tempo + 1) * lengthTable[digit]\<close>.
  \<open>scan_event\<close> skips octave, tempo and whitespace commands up to the next note or rest,
  or to the terminator; \<open>song_events\<close> collects the events. A note whose table index
  \<open>semitone + octave * 12\<close> is not below 36 is \<open>Failed\<close>, like a bad character or digit.
\<close>

definition is_digit_upto :: "int \<Rightarrow> char \<Rightarrow> bool" where
  "is_digit_upto mx c \<longleftrightarrow> 48 \<le> (of_char c :: int) \<and> (of_char c :: int) \<le> 48 + mx"

definition digit_value :: "char \<Rightarrow> int" where
  "digit_value c = of_char c - 48"

definition tick_count :: "int \<Rightarrow> char \<Rightarrow> nat" where
  "tick_count tmp d = nat ((tmp + 1) * lengthNumberToTickCount ! nat (digit_value d))"

datatype scanned = Failed | Ended | Event u32 nat int int "char list"

fun modifier :: "char list \<Rightarrow> int \<times> char list" where
  "modifier [] = (0, [])"
| "modifier (m # cs) =
     (if m = CHR ''#'' \<or> m = CHR ''+'' then (1, cs)
      else if m = CHR ''-'' then (- 1, cs)
      else (0, m # cs))"

definition note_event :: "u32 list \<Rightarrow> int \<Rightarrow> int \<Rightarrow> char \<Rightarrow> char list \<Rightarrow> scanned" where
  "note_event nt oct tmp c cs =
     (case modifier cs of
        (m, cs1) \<Rightarrow>
          (case cs1 of
             [] \<Rightarrow> Failed
           | d # cs2 \<Rightarrow>
               let pitch = letterToNoteNumber ! (of_char c - 65) + m;
                   semitone = (if pitch < 0 then pitch + 1 else pitch);
                   i = semitone + oct * 12
               in if is_digit_upto 9 d \<and> 0 \<le> i \<and> i < 36
                  then Event (nt ! nat i) (tick_count tmp d) oct tmp cs2
                  else Failed))"

fun scan_event :: "u32 list \<Rightarrow> int \<Rightarrow> int \<Rightarrow> char list \<Rightarrow> scanned" where
  "scan_event nt oct tmp [] = Failed"
| "scan_event nt oct tmp (c # cs) =
     (if c = CHR 0x00 then Ended
      else if c = CHR ''>'' then scan_event nt (if oct < 2 then oct + 1 else oct) tmp cs
      else if c = CHR ''<'' then scan_event nt (if oct > 0 then oct - 1 else oct) tmp cs
      else if c = CHR ''O'' then
        (case cs of
           [] \<Rightarrow> Failed
         | d # cs' \<Rightarrow> if is_digit_upto 2 d then scan_event nt (digit_value d) tmp cs' else Failed)
      else if c = CHR ''T'' then
        (case cs of
           [] \<Rightarrow> Failed
         | d # cs' \<Rightarrow> if is_digit_upto 9 d then scan_event nt oct (digit_value d) cs' else Failed)
      else if is_space c then scan_event nt oct tmp cs
      else if c = CHR ''R'' then
        (case cs of
           [] \<Rightarrow> Failed
         | d # cs' \<Rightarrow> if is_digit_upto 9 d then Event 0 (tick_count tmp d) oct tmp cs' else Failed)
      else if is_note_letter c then note_event nt oct tmp c cs
      else Failed)"

lemma modifier_length: "modifier cs = (m, cs1) \<Longrightarrow> length cs1 \<le> length cs"
  by (cases cs) (auto split: if_splits)

lemma note_event_shorter:
  "note_event nt oct tmp c cs = Event r n oct' tmp' rest \<Longrightarrow> length rest < length cs"
  by (auto simp: note_event_def Let_def split: prod.splits list.splits if_splits dest!: modifier_length)

lemma scan_event_shorter:
  "scan_event nt oct tmp cs = Event r n oct' tmp' rest \<Longrightarrow> length rest < length cs"
proof (induction nt oct tmp cs rule: scan_event.induct)
  case (1 nt oct tmp)
  then show ?case by simp
next
  case (2 nt oct tmp c cs)
  show ?case
    using "2.prems" "2.IH" 
    by (auto split: if_splits list.splits dest!: note_event_shorter)
qed

function song_events :: "u32 list \<Rightarrow> int \<Rightarrow> int \<Rightarrow> char list \<Rightarrow> (u32 \<times> nat) list option" where
  "song_events nt oct tmp cs =
     (case scan_event nt oct tmp cs of
        Failed \<Rightarrow> None
      | Ended \<Rightarrow> Some []
      | Event r n oct' tmp' rest \<Rightarrow> map_option ((#) (r, n)) (song_events nt oct' tmp' rest))"
  by pat_completeness auto

termination song_events
  by (relation "measure (\<lambda>(nt, oct, tmp, cs). length cs)") (auto dest: scan_event_shorter)

declare song_events.simps [simp del]

definition event_ticks :: "(u32 \<times> nat) list \<Rightarrow> u32 list" where
  "event_ticks evs = concat (map (\<lambda>(r, n). replicate n r) evs)"

definition song_text :: "string \<Rightarrow> char list" where
  "song_text songstr = map toupper songstr @ [CHR 0x00]"

text \<open>The part of the song that the player has not consumed yet.\<close>

definition unread :: "MMLPlayer \<Rightarrow> char list" where
  "unread p = drop (nat (position p)) (song p)"

definition scan_of :: "MMLPlayer \<Rightarrow> scanned" where
  "scan_of p = scan_event (noteToPhaseRate p) (octave p) (tempo p) (unread p)"

section \<open>A concrete instance of the renderer's arguments\<close>

text \<open>
  For closed examples: the thresholds and the note table as the two constructors compute
  them at 44100 Hz with IEEE arithmetic, and a stand-in for the quantised table lookup, a
  plain square wave.
\<close>

definition topPhaseRate_44100 :: "u32 list" where
  "topPhaseRate_44100 =
     [3895662, 7791324, 15582648, 31165296, 62330592, 124661184, 249322368, 498644736]"

definition noteToPhaseRate_44100 :: "u32 list" where
  "noteToPhaseRate_44100 =
     [12740059, 13497622, 14300233, 15150569, 16051469, 17005939,
      18017164, 19088521, 20223583, 21426140, 22700205, 24050029,
      25480118, 26995245, 28600466, 30301138, 32102938, 34011878,
      36034329, 38177042, 40447167, 42852281, 45400410, 48100059,
      50960237, 53990491, 57200933, 60602277, 64205876, 68023756,
      72068659, 76354085, 80894335, 85704562, 90800821, 96200119]"

definition square_pcm :: "u32 \<Rightarrow> nat \<Rightarrow> i16" where
  "square_pcm phase tableNum = (if phase < 2147483648 then 16384 else - 16384)"

section \<open>The note table of the MMLPlayer constructor\<close>

text \<open>
  The constructor sets \<^verbatim>\<open>noteToPhaseRate[i]\<close> to
  \<^verbatim>\<open>(uint32_t)(UINT32_MAX * (440.0 * pow(2, (i - NOTE_A_440) / 12.0) / sampleRate))\<close>,
  in double precision. \<open>note_rate\<close> is that product over the reals. What \<^verbatim>\<open>pow\<close> returns
  in the last place is not fixed by any standard, so the table is not computed here:
  \<open>note_table sampleRate nt\<close> says that \<open>nt\<close> has the 36 entries and that each is within
  2 of the exact value, which holds for the truncation of any double-precision result.
\<close>

definition note_rate :: "int \<Rightarrow> nat \<Rightarrow> real" where
  "note_rate sampleRate i =
     4294967295 * (440 * 2 powr ((real i - real_of_int NOTE_A_440) / 12) / real_of_int sampleRate)"

definition note_table :: "int \<Rightarrow> u32 list \<Rightarrow> bool" where
  "note_table sampleRate nt \<longleftrightarrow>
     length nt = nat (NUM_OCTAVES * NOTES_PER_OCTAVE) \<and>
     (\<forall>i < length nt. \<bar>real_of_int (uint (nt ! i)) - note_rate sampleRate i\<bar> < 2)"

text \<open>
  Brackets for \<open>2 powr (j / 12)\<close>, \<open>j < 12\<close>, as numerators over \<open>10\<^sup>1\<^sup>0\<close>, and the checks
  that the proof of \<open>note_table SAMPLE_RATE noteToPhaseRate_44100\<close> evaluates.
\<close>

definition semitone_lo :: "int list" where
  "semitone_lo =
     [10000000000, 10594630943, 11224620483, 11892071150, 12599210498, 13348398541,
      14142135623, 14983070768, 15874010519, 16817928305, 17817974362, 18877486253]"

definition semitone_hi :: "int list" where
  "semitone_hi =
     [10000000000, 10594630944, 11224620484, 11892071151, 12599210499, 13348398542,
      14142135624, 14983070769, 15874010520, 16817928306, 17817974363, 18877486254]"

definition brackets_semitone :: "nat \<times> int \<times> int \<Rightarrow> bool" where
  "brackets_semitone =
     (\<lambda>(j, a, b). 0 \<le> a \<and> 0 \<le> b \<and>
        a ^ 12 \<le> 2 ^ j * 10000000000 ^ 12 \<and> 2 ^ j * 10000000000 ^ 12 \<le> b ^ 12)"

definition near_note_rate :: "nat \<times> u32 \<Rightarrow> bool" where
  "near_note_rate = (\<lambda>(i, n).
     (uint n - 2) * (44100 * 4 * 10000000000)
       < 4294967295 * 440 * 2 ^ ((i + 3) div 12) * semitone_lo ! ((i + 3) mod 12) \<and>
     4294967295 * 440 * 2 ^ ((i + 3) div 12) * semitone_hi ! ((i + 3) mod 12)
       < (uint n + 2) * (44100 * 4 * 10000000000))"

section \<open>Digits and characters\<close>

lemma sint8: "sint (w :: 8 word) = (uint w + 128) mod 256 - 128"
  by (simp add: sint_uint signed_take_bit_eq_take_bit_shift take_bit_eq_mod)

lemma uint_of_char8: "uint (of_char c :: 8 word) = int (of_char c)"
proof -
  have "(of_char c :: 8 word) = of_nat (of_char c)"
    by (simp add: of_nat_of_char)
  also have "uint \<dots> = int (of_char c)"
    by (simp add: unsigned_of_nat take_bit_eq_mod) 
  finally show ?thesis .
qed

lemma mod256_eqI: "0 \<le> y \<Longrightarrow> y < 256 \<Longrightarrow> x = y + 256 * k \<Longrightarrow> x mod 256 = (y::int)"
  by simp

lemma int_of_char: "(of_char c :: int) = int (of_char c)"
  by (simp add: of_nat_of_char)

lemma sint_sub48:
  "sint ((of_char c :: 8 word) - 48) =
     (if (of_char c :: int) < 176 then of_char c - 48 else of_char c - 304)"
proof -
  define n where "n = (of_char c :: int)"
  have b: "0 \<le> n" "n < 256" by (simp_all add: n_def int_of_char)
  have u: "uint ((of_char c :: 8 word) - 48) = (n - 48) mod 256"
    by (simp add: uint_word_ariths uint_of_char8 n_def int_of_char)
  have s: "sint ((of_char c :: 8 word) - 48) = ((n - 48) mod 256 + 128) mod 256 - 128"
    by (simp only: sint8 u)
  consider "n < 48" | "48 \<le> n" "n < 176" | "176 \<le> n" by linarith
  then have "((n - 48) mod 256 + 128) mod 256 - 128 = (if n < 176 then n - 48 else n - 304)"
  proof cases
    case 1
    have "(n - 48) mod 256 = n + 208"
      using b 1 by (intro mod256_eqI [where k = "- 1"]) auto
    moreover have "(n + 208 + 128) mod 256 = n + 80"
      using b 1 by (intro mod256_eqI [where k = 1]) auto
    ultimately show ?thesis using 1 by simp
  next
    case 2
    have "(n - 48) mod 256 = n - 48"
      using b 2 by (intro mod256_eqI [where k = 0]) auto
    moreover have "(n - 48 + 128) mod 256 = n + 80"
      using b 2 by (intro mod256_eqI [where k = 0]) auto
    ultimately show ?thesis using 2 by simp
  next
    case 3
    have "(n - 48) mod 256 = n - 48"
      using b 3 by (intro mod256_eqI [where k = 0]) auto
    moreover have "(n - 48 + 128) mod 256 = n - 176"
      using b 3 by (intro mod256_eqI [where k = 1]) auto
    ultimately show ?thesis using 3 by simp
  qed
  with s show ?thesis
    by (simp add: n_def)
qed

lemma of_char_int_bounds: "0 \<le> (of_char c :: int)" "(of_char c :: int) < 256"
  by (simp_all add: int_of_char)

lemma digit_iff:
  assumes "0 \<le> mn" "mx \<le> 9"
  shows "(mn \<le> sint ((of_char c :: 8 word) - 48) \<and> sint ((of_char c :: 8 word) - 48) \<le> mx) \<longleftrightarrow>
   (mn \<le> (of_char c :: int) - 48 \<and> (of_char c :: int) - 48 \<le> mx)"
  using assms of_char_int_bounds [of c] by (auto simp: sint_sub48)

section \<open>The sequencer refines the event reading\<close>

lemma unread_updates [simp]:
  "unread (p\<lparr>octave := a\<rparr>) = unread p"
  "unread (p\<lparr>tempo := b\<rparr>) = unread p"
  "unread (p\<lparr>counts := c\<rparr>) = unread p"
  "unread (p\<lparr>output_rate := d\<rparr>) = unread p"
  by (simp_all add: unread_def)

lemma unread_advance:
  "0 \<le> position p \<Longrightarrow> unread p = c # cs \<Longrightarrow> unread (p\<lparr>position := position p + 1\<rparr>) = cs"
proof -
  assume a: "0 \<le> position p" "unread p = c # cs"
  then have "nat (position p + 1) = Suc (nat (position p))"
    by simp
  moreover have "drop (Suc (nat (position p))) (song p) = tl (drop (nat (position p)) (song p))"
    by (simp add: drop_Suc tl_drop)
  ultimately show ?thesis
    using a by (simp add: unread_def)
qed

lemma song_at_unread:
  "0 \<le> position p \<Longrightarrow>
     song_at p = (case unread p of [] \<Rightarrow> Inl (song_index_out_of_range (position p)) | c # cs \<Rightarrow> Inr c)"
  by (auto simp: song_at_def unread_def hd_drop_conv_nth [symmetric] split: list.splits)

lemma ReadNumber_unread:
  assumes "0 \<le> position p" "0 \<le> mx" "mx \<le> 9"
  shows "ReadNumber 0 mx s p =
     (case unread p of
        [] \<Rightarrow> Inl (song_index_out_of_range (position p))
      | d # cs \<Rightarrow> if is_digit_upto mx d then Inr (digit_value d, p\<lparr>position := position p + 1\<rparr>)
                 else Inl (domain_error s))"
proof (cases "unread p")
  case Nil
  with assms show ?thesis
    by (simp add: ReadNumber_def song_at_unread)
next
  case (Cons d cs)
  have "(0 \<le> sint ((of_char d :: 8 word) - 48) \<and> sint ((of_char d :: 8 word) - 48) \<le> mx) = is_digit_upto mx d"
    using digit_iff [of 0 mx d] assms by (auto simp: is_digit_upto_def)
  moreover have "is_digit_upto mx d \<Longrightarrow> sint ((of_char d :: 8 word) - 48) = digit_value d"
    using assms by (auto simp: is_digit_upto_def digit_value_def sint_sub48)
  ultimately show ?thesis
    using assms Cons by (auto simp: ReadNumber_def song_at_unread Let_def)
qed

lemma tick_table_pos:
  assumes "0 \<le> n" "n \<le> 9"
  shows "1 \<le> lengthNumberToTickCount ! nat n"
proof -
  have "\<forall>x \<in> set lengthNumberToTickCount. 1 \<le> x"
    by (simp add: lengthNumberToTickCount_def)
  moreover from assms have "nat n < length lengthNumberToTickCount"
    by (simp add: lengthNumberToTickCount_def)
  ultimately show ?thesis
    using nth_mem by blast
qed

lemma digit_value_range: "is_digit_upto mx d \<Longrightarrow> 0 \<le> digit_value d \<and> digit_value d \<le> mx"
  by (auto simp: is_digit_upto_def digit_value_def)

lemma tick_count_pos:
  assumes "0 \<le> tmp" "is_digit_upto 9 d"
  shows "1 \<le> (tmp + 1) * lengthNumberToTickCount ! nat (digit_value d)"
proof -
  from digit_value_range [OF assms(2)] have "1 \<le> lengthNumberToTickCount ! nat (digit_value d)"
    by (intro tick_table_pos) auto
  moreover from assms have "1 \<le> tmp + 1" by simp
  ultimately have "1 * 1 \<le> (tmp + 1) * lengthNumberToTickCount ! nat (digit_value d)"
    by (intro mult_mono) auto
  then show ?thesis by simp
qed

lemma note_base_range:
  "is_note_letter c \<Longrightarrow> 0 \<le> letterToNoteNumber ! (of_char c - 65) \<and> letterToNoteNumber ! (of_char c - 65) \<le> 11"
  by (auto simp: is_note_letter_def letterToNoteNumber_def)

lemma modifier_unread:
  assumes "0 \<le> position p" "unread p = m # cs"
  shows "modifier (unread p) =
     (if m = CHR ''#'' \<or> m = CHR ''+'' then 1 else if m = CHR ''-'' then - 1 else 0,
      unread (if m = CHR ''#'' \<or> m = CHR ''+'' \<or> m = CHR ''-''
              then p\<lparr>position := position p + 1\<rparr> else p))"
  using assms unread_advance [OF assms] by auto

lemma note_command_scan:
  assumes "0 \<le> position p" "0 \<le> tempo p" "is_note_letter c"
  shows "case note_command c p of
           Inl e \<Rightarrow> note_event (noteToPhaseRate p) (octave p) (tempo p) c (unread p) = Failed
         | Inr q \<Rightarrow>
             note_event (noteToPhaseRate p) (octave p) (tempo p) c (unread p) =
               Event (output_rate q) (nat (counts q)) (octave q) (tempo q) (unread q)
             \<and> 1 \<le> counts q \<and> 0 \<le> tempo q \<and> 0 \<le> position q"
proof (cases "unread p")
  case Nil
  with assms show ?thesis
    by (simp add: note_command_def note_event_def song_at_unread)
next
  case (Cons m cs)
  let ?consumed = "m = CHR ''#'' \<or> m = CHR ''+'' \<or> m = CHR ''-''"
  let ?p2 = "if ?consumed then p\<lparr>position := position p + 1\<rparr> else p"
  let ?base = "letterToNoteNumber ! (of_char c - 65)"
  let ?pitch1 = "?base + (if m = CHR ''#'' \<or> m = CHR ''+'' then 1 else if m = CHR ''-'' then - 1 else 0)"
  let ?pitch2 = "if ?pitch1 < 0 then ?pitch1 + 1 else ?pitch1"
  have p2: "0 \<le> position ?p2" "tempo ?p2 = tempo p" "octave ?p2 = octave p"
    "noteToPhaseRate ?p2 = noteToPhaseRate p"
    using assms by auto
  have base: "0 \<le> ?base" "?base \<le> 11"
    using note_base_range [OF assms(3)] by auto
  have nc: "note_command c p =
     (case ReadNumber 0 9 ''Inavlid count number in note command in song string'' ?p2 of
        Inl e \<Rightarrow> Inl e
      | Inr (n, p3) \<Rightarrow>
          let p4 = p3\<lparr>counts := (tempo p3 + 1) * lengthNumberToTickCount ! nat n\<rparr>
          in (case note_at p4 (?pitch2 + octave p4 * 12) of
                Inl e \<Rightarrow> Inl e
              | Inr r \<Rightarrow> Inr (p4\<lparr>output_rate := r\<rparr>)))"
    using assms(1) Cons base
    by (simp add: note_command_def song_at_unread Let_def NUM_OCTAVES_def NOTES_PER_OCTAVE_def
             cong: sum.case_cong)
  have ne: "note_event (noteToPhaseRate p) (octave p) (tempo p) c (unread p) =
     (case unread ?p2 of
        [] \<Rightarrow> Failed
      | d # cs2 \<Rightarrow>
          if is_digit_upto 9 d \<and> 0 \<le> ?pitch2 + octave p * 12 \<and> ?pitch2 + octave p * 12 < 36
          then Event (noteToPhaseRate p ! nat (?pitch2 + octave p * 12)) (tick_count (tempo p) d)
                 (octave p) (tempo p) cs2
          else Failed)"
    unfolding note_event_def modifier_unread [OF assms(1) Cons]
    by (simp add: Let_def cong: list.case_cong)
  show ?thesis
  proof (cases "unread ?p2")
    case Nil
    then show ?thesis
      unfolding nc ne using p2(1)
      by (simp add: ReadNumber_unread)
  next
    case (Cons d cs2)
    have adv: "unread (?p2\<lparr>position := position ?p2 + 1\<rparr>) = cs2"
      using unread_advance [OF p2(1) Cons] .
    show ?thesis
    proof (cases "is_digit_upto 9 d")
      case False
      then show ?thesis
        unfolding nc ne using p2(1) Cons
        by (simp add: ReadNumber_unread)
    next
      case True
      note cnt = tick_count_pos [OF assms(2) True]
      show ?thesis
        unfolding nc ne using p2 Cons True adv cnt assms(1,2)
        by (simp add: ReadNumber_unread Let_def note_at_def NUM_OCTAVES_def NOTES_PER_OCTAVE_def
              tick_count_def)
    qed
  qed
qed

lemma Tick_switch_scan:
  assumes "0 \<le> position p" "0 \<le> tempo p"
  shows "case Tick_switch p of
           Inl e \<Rightarrow> scan_of p = Failed
         | Inr (d, q) \<Rightarrow>
             if \<not> d then scan_of p = scan_of q \<and> 0 \<le> tempo q \<and> 0 \<le> position q
             else if position q < 0 then scan_of p = Ended \<and> output_rate q = 0
             else scan_of p = Event (output_rate q) (nat (counts q)) (octave q) (tempo q) (unread q)
                  \<and> 1 \<le> counts q \<and> 0 \<le> tempo q"
proof (cases "unread p")
  case Nil
  with assms show ?thesis
    by (simp add: Tick_switch_def scan_of_def song_at_unread)
next
  case (Cons c cs)
  let ?p1 = "p\<lparr>position := position p + 1\<rparr>"
  have p1: "0 \<le> position ?p1" "unread ?p1 = cs" "0 \<le> tempo ?p1"
    using assms unread_advance [OF assms(1) Cons] by auto
  have at: "song_at p = Inr c"
    using assms Cons by (simp add: song_at_unread)
  consider (nul) "c = CHR 0x00" | (up) "c = CHR ''>''" | (down) "c = CHR ''<''"
    | (O) "c = CHR ''O''" | (T) "c = CHR ''T''"
    | (space) "is_space c" "c \<noteq> CHR 0x00" "c \<noteq> CHR ''>''" "c \<noteq> CHR ''<''" "c \<noteq> CHR ''O''" "c \<noteq> CHR ''T''"
    | (R) "c = CHR ''R''"
    | (letter) "is_note_letter c" "\<not> is_space c" "c \<noteq> CHR 0x00" "c \<noteq> CHR ''>''" "c \<noteq> CHR ''<''" "c \<noteq> CHR ''O''" "c \<noteq> CHR ''T''" "c \<noteq> CHR ''R''"
    | (bad) "\<not> is_note_letter c" "\<not> is_space c" "c \<noteq> CHR 0x00" "c \<noteq> CHR ''>''" "c \<noteq> CHR ''<''" "c \<noteq> CHR ''O''" "c \<noteq> CHR ''T''" "c \<noteq> CHR ''R''"
    by blast
  then show ?thesis
  proof cases
    case nul
    then show ?thesis
      using Cons by (simp add: Tick_switch_def at scan_of_def Let_def)
  next
    case up
    then show ?thesis
      using Cons p1 by (simp add: Tick_switch_def at scan_of_def Let_def NUM_OCTAVES_def)
  next
    case down
    then show ?thesis
      using Cons p1 by (simp add: Tick_switch_def at scan_of_def Let_def)
  next
    case O
    show ?thesis
    proof (cases cs)
      case Nil
      then show ?thesis
        using O Cons p1 by (simp add: Tick_switch_def at scan_of_def Let_def ReadNumber_unread NUM_OCTAVES_def)
    next
      case (Cons d cs')
      then show ?thesis
        using O \<open>unread p = c # cs\<close> p1 unread_advance [OF p1(1), of d cs']
        by (simp add: Tick_switch_def at scan_of_def Let_def ReadNumber_unread NUM_OCTAVES_def)
    qed
  next
    case T
    show ?thesis
    proof (cases cs)
      case Nil
      then show ?thesis
        using T Cons p1 by (simp add: Tick_switch_def at scan_of_def Let_def ReadNumber_unread)
    next
      case (Cons d cs')
      then show ?thesis
        using T \<open>unread p = c # cs\<close> p1 unread_advance [OF p1(1), of d cs']
          digit_value_range [of 9 d]
        by (simp add: Tick_switch_def at scan_of_def Let_def ReadNumber_unread)
    qed
  next
    case space
    then show ?thesis
      using Cons p1 by (simp add: Tick_switch_def at scan_of_def Let_def)
  next
    case R
    show ?thesis
    proof (cases cs)
      case Nil
      then show ?thesis
        using R Cons p1 by (simp add: Tick_switch_def at scan_of_def Let_def ReadNumber_unread is_space_def)
    next
      case (Cons d cs')
      then show ?thesis
        using R \<open>unread p = c # cs\<close> p1 unread_advance [OF p1(1), of d cs']
          tick_count_pos [OF assms(2), of d]
        by (simp add: Tick_switch_def at scan_of_def Let_def ReadNumber_unread is_space_def tick_count_def)
    qed
  next
    case letter
    have sw: "Tick_switch p = (case note_command c ?p1 of Inl e \<Rightarrow> Inl e | Inr p2 \<Rightarrow> Inr (True, p2))"
      using letter by (simp add: Tick_switch_def at Let_def)
    have sc: "scan_of p = note_event (noteToPhaseRate ?p1) (octave ?p1) (tempo ?p1) c (unread ?p1)"
      using letter Cons p1 by (simp add: scan_of_def)
    from note_command_scan [OF p1(1) p1(3) letter(1)] show ?thesis
      unfolding sw sc by (auto split: sum.splits)
  next
    case bad
    then show ?thesis
      using Cons by (simp add: Tick_switch_def at scan_of_def Let_def)
  qed
qed

lemma Tick_loop_scan:
  assumes "0 \<le> position p" "0 \<le> tempo p"
  shows "case Tick_loop p of
           Inl e \<Rightarrow> scan_of p = Failed
         | Inr q \<Rightarrow>
             if position q < 0 then scan_of p = Ended \<and> output_rate q = 0
             else scan_of p = Event (output_rate q) (nat (counts q)) (octave q) (tempo q) (unread q)
                  \<and> 1 \<le> counts q \<and> 0 \<le> tempo q"
  using assms
proof (induction p rule: Tick_loop.induct)
  case (1 p)
  note sw = Tick_switch_scan [OF "1.prems"]
  show ?case
  proof (cases "Tick_switch p")
    case (Inl e)
    with sw show ?thesis
      by (subst Tick_loop.simps) simp
  next
    case (Inr dq)
    obtain d q where dq: "dq = (d, q)" by (cases dq)
    show ?thesis
    proof (cases d)
      case True
      with sw Inr dq show ?thesis
        by (subst Tick_loop.simps) simp
    next
      case False
      with sw Inr dq have q: "scan_of p = scan_of q" "0 \<le> tempo q" "0 \<le> position q"
        by simp_all
      from "1.IH" [OF Inr dq [symmetric] False q(3) q(2)] Inr dq False q(1)
      show ?thesis
        by (subst Tick_loop.simps) (auto split: sum.splits)
    qed
  qed
qed

section \<open>The renderer, tick by tick\<close>

lemma tick_samples_acc:
  "tick_samples pcm t n r ph data =
     (data @ fst (tick_samples pcm t n r ph []), snd (tick_samples pcm t n r ph []))"
proof (induction n arbitrary: ph data)
  case 0
  show ?case by simp
next
  case (Suc n)
  show ?case
    using Suc.IH [of "ph + r" "data @ [pcm ph t]"] Suc.IH [of "ph + r" "[pcm ph t]"]
    by simp
qed

lemma length_tick_samples: "length (fst (tick_samples pcm t n r ph data)) = length data + n"
  by (induction n arbitrary: ph data) auto

lemma length_tick_block: "length (fst (tick_block tops pcm r ph)) = TICK_LENGTH"
  by (simp add: tick_block_def length_tick_samples)

lemma length_render_ticks: "length (render_ticks tops pcm rs ph) = TICK_LENGTH * length rs"
proof (induction rs arbitrary: ph)
  case Nil
  show ?case by simp
next
  case (Cons r rs)
  obtain b ph' where b: "tick_block tops pcm r ph = (b, ph')"
    by (cases "tick_block tops pcm r ph")
  with length_tick_block [of tops pcm r ph] have "length b = TICK_LENGTH"
    by simp
  with b Cons.IH [of ph'] show ?case
    by simp
qed

lemma render_ticks_snoc_silence:
  "render_ticks tops pcm (rs @ [0]) ph = render_ticks tops pcm rs ph @ replicate TICK_LENGTH 0"
  by (induction rs arbitrary: ph) (auto simp: tick_block_def split: prod.splits)

lemma song_loop_ticks:
  "song_loop tops pcm p phase data =
     (case song_ticks p of
        Inl e \<Rightarrow> Inl e
      | Inr rs \<Rightarrow> Inr (data @ render_ticks tops pcm rs phase))"
proof (induction tops pcm p phase data rule: song_loop.induct)
  case (1 tops pcm p phase data)
  show ?case
  proof (cases "IsDone p")
    case True
    then show ?thesis
      by (subst song_loop.simps, subst song_ticks.simps) simp
  next
    case nd: False
    show ?thesis
    proof (cases "Tick p")
      case (Inl e)
      with nd show ?thesis
        by (subst song_loop.simps, subst song_ticks.simps) simp
    next
      case (Inr rp)
      obtain r p' where rp: "rp = (r, p')" by (cases rp)
      show ?thesis
      proof (cases "r = 0")
        case True
        from "1.IH"(1) [OF nd Inr rp [symmetric] refl True] nd Inr rp True
        show ?thesis
          by (subst song_loop.simps, subst song_ticks.simps)
             (auto simp: tick_block_def split: sum.splits)
      next
        case False
        obtain d' ph' where t: "tick_samples pcm (GetTable tops r) TICK_LENGTH r phase data = (d', ph')"
          by (cases "tick_samples pcm (GetTable tops r) TICK_LENGTH r phase data")
        from t have t0: "d' = data @ fst (tick_samples pcm (GetTable tops r) TICK_LENGTH r phase [])"
          "ph' = snd (tick_samples pcm (GetTable tops r) TICK_LENGTH r phase [])"
          by (subst (asm) tick_samples_acc, simp)+
        from "1.IH"(2) [OF nd Inr rp [symmetric] refl False t [symmetric]] nd Inr rp False t t0
        show ?thesis
          by (subst song_loop.simps, subst song_ticks.simps)
             (auto simp: tick_block_def split: sum.splits prod.splits)
      qed
    qed
  qed
qed

lemma song_ticks_hold:
  assumes "0 \<le> position p" "counts p = int k + 1"
  shows "song_ticks p =
     (case song_ticks (p\<lparr>counts := 1\<rparr>) of
        Inl e \<Rightarrow> Inl e
      | Inr rs \<Rightarrow> Inr (replicate k (output_rate p) @ rs))"
  using assms
proof (induction k arbitrary: p)
  case 0
  then have "p\<lparr>counts := 1\<rparr> = p"
    by simp
  then show ?case
    by (simp split: sum.splits)
next
  case (Suc k)
  let ?q = "p\<lparr>counts := int k + 1\<rparr>"
  have t: "Tick p = Inr (output_rate p, ?q)"
    using Suc.prems by (simp add: Tick_def Let_def)
  have "song_ticks p =
    (case song_ticks ?q of Inl e \<Rightarrow> Inl e | Inr rs \<Rightarrow> Inr (output_rate p # rs))"
    using Suc.prems t by (subst song_ticks.simps) (simp add: IsDone_def)
  also have "song_ticks ?q =
    (case song_ticks (p\<lparr>counts := 1\<rparr>) of
        Inl e \<Rightarrow> Inl e
      | Inr rs \<Rightarrow> Inr (replicate k (output_rate p) @ rs))"
    using Suc.IH [of ?q] Suc.prems by (simp cong: sum.case_cong)
  finally show ?case
    by (simp split: sum.splits)
qed

lemma song_ticks_events:
  assumes "0 \<le> position p" "counts p \<le> 1" "0 \<le> tempo p"
  shows "case song_events (noteToPhaseRate p) (octave p) (tempo p) (unread p) of
           None \<Rightarrow> isl (song_ticks p)
         | Some evs \<Rightarrow> song_ticks p = Inr (event_ticks evs @ [0])"
  using assms
proof (induction "length (unread p)" arbitrary: p rule: less_induct)
  case less
  let ?q = "p\<lparr>counts := counts p - 1\<rparr>"
  have q: "0 \<le> position ?q" "0 \<le> tempo ?q" "scan_of ?q = scan_of p"
    using less.prems by (simp_all add: scan_of_def)
  have tick: "Tick p = (case Tick_loop ?q of Inl e \<Rightarrow> Inl e | Inr p' \<Rightarrow> Inr (output_rate p', p'))"
    using less.prems by (simp add: Tick_def Let_def)
  have ticks: "song_ticks p =
     (case Tick_loop ?q of
        Inl e \<Rightarrow> Inl e
      | Inr p' \<Rightarrow> (case song_ticks p' of Inl e \<Rightarrow> Inl e | Inr rs \<Rightarrow> Inr (output_rate p' # rs)))"
    using less.prems(1) by (subst song_ticks.simps) (simp add: IsDone_def tick split: sum.splits)
  have evs: "song_events (noteToPhaseRate p) (octave p) (tempo p) (unread p) =
     (case scan_of p of
        Failed \<Rightarrow> None
      | Ended \<Rightarrow> Some []
      | Event r n oct' tmp' rest \<Rightarrow>
          map_option ((#) (r, n)) (song_events (noteToPhaseRate p) oct' tmp' rest))"
    by (subst song_events.simps) (simp add: scan_of_def)
  note sc = Tick_loop_scan [OF q(1,2), unfolded q(3)]
  show ?case
  proof (cases "Tick_loop ?q")
    case (Inl e)
    with sc show ?thesis
      by (simp add: ticks evs)
  next
    case (Inr p')
    show ?thesis
    proof (cases "position p' < 0")
      case True
      then have "song_ticks p' = Inr []"
        by (subst song_ticks.simps) (simp add: IsDone_def)
      with sc Inr True show ?thesis
        by (simp add: ticks evs event_ticks_def)
    next
      case False
      let ?r = "output_rate p'" and ?n = "nat (counts p')"
      let ?p'' = "p'\<lparr>counts := 1\<rparr>"
      from sc Inr False have ev: "scan_of p = Event ?r ?n (octave p') (tempo p') (unread p')"
        and c: "1 \<le> counts p'" and t: "0 \<le> tempo p'"
        by simp_all
      from Tick_loop_progress [OF Inr] have same: "noteToPhaseRate p' = noteToPhaseRate p"
        by simp
      from ev have "length (unread p') < length (unread p)"
        unfolding scan_of_def by (rule scan_event_shorter)
      then have "length (unread ?p'') < length (unread p)"
        by simp
      from less.hyps [OF this] False t
      have IH: "case song_events (noteToPhaseRate p) (octave p') (tempo p') (unread p') of
           None \<Rightarrow> isl (song_ticks ?p'')
         | Some evs \<Rightarrow> song_ticks ?p'' = Inr (event_ticks evs @ [0])"
        by (simp add: same)
      have "counts p' = int (?n - 1) + 1"
        using c by simp
      from song_ticks_hold [OF _ this] False
      have hold: "song_ticks p' =
        (case song_ticks ?p'' of Inl e \<Rightarrow> Inl e | Inr rs \<Rightarrow> Inr (replicate (?n - 1) ?r @ rs))"
        by simp
      have rep: "?r # replicate (?n - 1) ?r = replicate ?n ?r"
        using c by (cases ?n) auto
      show ?thesis
      proof (cases "song_events (noteToPhaseRate p) (octave p') (tempo p') (unread p')")
        case None
        with IH obtain e where "song_ticks ?p'' = Inl e"
          by (cases "song_ticks ?p''") auto
        with None show ?thesis
          by (simp add: ticks evs ev Inr hold)
      next
        case (Some evs')
        with IH have "song_ticks ?p'' = Inr (event_ticks evs' @ [0])"
          by simp
        with Some rep show ?thesis
          by (simp add: ticks evs ev Inr hold event_ticks_def del: replicate.simps)
      qed
    qed
  qed
qed

lemma new_player [simp]:
  "position (MMLPlayer_new nt s) = 0" "counts (MMLPlayer_new nt s) = 0"
  "tempo (MMLPlayer_new nt s) = 4" "octave (MMLPlayer_new nt s) = 1"
  "noteToPhaseRate (MMLPlayer_new nt s) = nt" "unread (MMLPlayer_new nt s) = song_text s"
  by (simp_all add: MMLPlayer_new_def MMLPlayer_init_def Load_def unread_def song_text_def)

lemma new_player_ticks:
  "case song_events nt 1 4 (song_text s) of
     None \<Rightarrow> isl (song_ticks (MMLPlayer_new nt s))
   | Some evs \<Rightarrow> song_ticks (MMLPlayer_new nt s) = Inr (event_ticks evs @ [0])"
  using song_ticks_events [of "MMLPlayer_new nt s"] by simp

lemma render_events:
  "GenerateSongSquareWave tops nt pcm s =
     (case song_ticks (MMLPlayer_new nt s) of
        Inl e \<Rightarrow> Inl e
      | Inr rs \<Rightarrow> Inr (render_ticks tops pcm rs 0))"
  by (simp add: GenerateSongSquareWave_def song_loop_ticks cong: sum.case_cong)

lemma length_event_ticks: "length (event_ticks evs) = sum_list (map snd evs)"
  by (induction evs) (auto simp: event_ticks_def)

lemmas events_eval =
  song_text_def toupper_def song_events.simps scan_event.simps note_event_def is_digit_upto_def
  digit_value_def tick_count_def is_space_def is_note_letter_def letterToNoteNumber_def
  lengthNumberToTickCount_def Let_def

section \<open>The renderer on a whole song\<close>

lemma render_of_events:
  assumes "song_events nt 1 4 (song_text s) = Some evs"
  shows "song_ticks (MMLPlayer_new nt s) = Inr (event_ticks evs @ [0])"
    and "GenerateSongSquareWave tops nt pcm s =
           Inr (render_ticks tops pcm (event_ticks evs) 0 @ replicate TICK_LENGTH 0)"
proof -
  show t: "song_ticks (MMLPlayer_new nt s) = Inr (event_ticks evs @ [0])"
    using new_player_ticks [of nt s] assms by simp
  show "GenerateSongSquareWave tops nt pcm s =
           Inr (render_ticks tops pcm (event_ticks evs) 0 @ replicate TICK_LENGTH 0)"
    by (simp add: render_events t render_ticks_snoc_silence)
qed

lemma render_fails:
  assumes "song_events nt 1 4 (song_text s) = None"
  shows "isl (GenerateSongSquareWave tops nt pcm s)"
proof -
  from new_player_ticks [of nt s] assms have "isl (song_ticks (MMLPlayer_new nt s))"
    by simp
  then show ?thesis
    by (cases "song_ticks (MMLPlayer_new nt s)") (simp_all add: render_events)
qed

lemma render_returns_iff:
  "(\<exists>data. GenerateSongSquareWave tops nt pcm s = Inr data) \<longleftrightarrow>
   (\<exists>evs. song_events nt 1 4 (song_text s) = Some evs)"
proof (cases "song_events nt 1 4 (song_text s)")
  case None
  from render_fails [OF this, of tops pcm] None show ?thesis
    by (cases "GenerateSongSquareWave tops nt pcm s") auto
next
  case (Some evs)
  from render_of_events(2) [OF this, of tops pcm] Some show ?thesis
    by simp
qed

lemma tick_samples_map:
  "tick_samples pcm t n r ph data =
     (data @ map (\<lambda>k. pcm (ph + of_nat k * r) t) [0..<n], ph + of_nat n * r)"
proof (induction n arbitrary: ph data)
  case 0
  show ?case by simp
next
  case (Suc n)
  have "map (\<lambda>k. pcm (ph + of_nat k * r) t) [0..<Suc n] =
        pcm ph t # map (\<lambda>k. pcm (ph + r + of_nat k * r) t) [0..<n]"
    by (simp only: map_upt_Suc) (simp add: algebra_simps)
  then show ?case
    using Suc.IH [of "ph + r" "data @ [pcm ph t]"]
    by (simp add: algebra_simps)
qed

lemma render_ticks_silence:
  "render_ticks tops pcm (replicate k 0 @ rs) ph =
     replicate (k * TICK_LENGTH) 0 @ render_ticks tops pcm rs ph"
  by (induction k) (simp_all add: tick_block_def replicate_add)

lemma render_ticks_sounding:
  assumes "r \<noteq> 0"
  shows "render_ticks tops pcm (replicate k r @ rs) ph =
     map (\<lambda>j. pcm (ph + of_nat j * r) (GetTable tops r)) [0..<k * TICK_LENGTH] @
     render_ticks tops pcm rs (ph + of_nat (k * TICK_LENGTH) * r)"
proof (induction k arbitrary: ph)
  case 0
  show ?case by simp
next
  case (Suc k)
  let ?t = "GetTable tops r" and ?T = TICK_LENGTH
  let ?f = "\<lambda>j. pcm (ph + of_nat j * r) ?t"
  have blk: "tick_block tops pcm r ph = (map ?f [0..<?T], ph + of_nat ?T * r)"
    using assms by (simp add: tick_block_def tick_samples_map)
  have "[0..<Suc k * ?T] = [0..<?T] @ map (\<lambda>j. j + ?T) [0..<k * ?T]"
    by (simp add: map_add_upt upt_add_eq_append [of 0 ?T "k * ?T", simplified] add.commute)
  then have "map ?f [0..<Suc k * ?T] =
     map ?f [0..<?T] @ map (\<lambda>j. pcm (ph + of_nat ?T * r + of_nat j * r) ?t) [0..<k * ?T]"
    by (simp add: o_def algebra_simps)
  then show ?case
    using Suc.IH [of "ph + of_nat ?T * r"] blk
    by (simp add: algebra_simps)
qed

section \<open>Bisection\<close>

lemma lower_bound_correct:
  assumes "sorted xs" "first + len \<le> length xs"
  shows "first \<le> lower_bound xs first len v \<and> lower_bound xs first len v \<le> first + len
       \<and> (\<forall>i. first \<le> i \<and> i < lower_bound xs first len v \<longrightarrow> xs ! i < v)
       \<and> (lower_bound xs first len v < first + len \<longrightarrow> v \<le> xs ! lower_bound xs first len v)"
  using assms
proof (induction xs first len v rule: lower_bound.induct)
  case (1 xs first len v)
  show ?case
  proof (cases "len > 0")
    case False
    then have "lower_bound xs first len v = first"
      by (subst lower_bound.simps) simp
    with False show ?thesis
      by auto
  next
    case True
    define half where "half = len div 2"
    define middle where "middle = first + half"
    have hl: "half < len" "middle < first + len" "middle < length xs"
      using True "1.prems"(2) by (auto simp: half_def middle_def)
    show ?thesis
    proof (cases "xs ! middle < v")
      case lt: True
      let ?k = "lower_bound xs (middle + 1) (len - half - 1) v"
      have eq: "lower_bound xs first len v = ?k"
        using True lt by (subst lower_bound.simps) (simp add: Let_def half_def middle_def)
      have "middle + 1 + (len - half - 1) \<le> length xs"
        using hl "1.prems"(2) by (simp add: middle_def)
      from "1.IH"(1) [OF True half_def middle_def lt "1.prems"(1) this]
      have IH: "middle + 1 \<le> ?k" "?k \<le> middle + 1 + (len - half - 1)"
        "\<forall>i. middle + 1 \<le> i \<and> i < ?k \<longrightarrow> xs ! i < v"
        "?k < middle + 1 + (len - half - 1) \<longrightarrow> v \<le> xs ! ?k"
        by auto
      have low: "xs ! i < v" if "first \<le> i" "i \<le> middle" for i
      proof -
        from that hl have "xs ! i \<le> xs ! middle"
          using "1.prems"(1) by (intro sorted_nth_mono) auto
        with lt show ?thesis by simp
      qed
      have "xs ! i < v" if "first \<le> i" "i < ?k" for i
        using that low [of i] IH(3) by (cases "i \<le> middle") auto
      moreover have "middle + 1 + (len - half - 1) = first + len"
        using hl by (simp add: middle_def)
      ultimately show ?thesis
        unfolding eq using IH by (auto simp: middle_def)
    next
      case ge: False
      let ?k = "lower_bound xs first half v"
      have eq: "lower_bound xs first len v = ?k"
        using True ge by (subst lower_bound.simps) (simp add: Let_def half_def middle_def)
      have "first + half \<le> length xs"
        using hl by (simp add: middle_def)
      from "1.IH"(2) [OF True half_def middle_def ge "1.prems"(1) this]
      have IH: "first \<le> ?k" "?k \<le> first + half"
        "\<forall>i. first \<le> i \<and> i < ?k \<longrightarrow> xs ! i < v"
        "?k < first + half \<longrightarrow> v \<le> xs ! ?k"
        by auto
      have "v \<le> xs ! ?k"
      proof (cases "?k < first + half")
        case True
        with IH(4) show ?thesis by simp
      next
        case False
        with IH(2) have "?k = middle" by (simp add: middle_def)
        with ge show ?thesis by simp
      qed
      then show ?thesis
        unfolding eq using IH hl by (auto simp: middle_def)
    qed
  qed
qed

lemma topPhaseRate_44100_sorted:
  "length topPhaseRate_44100 = WAVETABLE_NUM_TABLES" "sorted topPhaseRate_44100"
  by (simp_all add: topPhaseRate_44100_def WAVETABLE_NUM_TABLES_def)

section \<open>Single-precision rounding, and the thresholds at any sample rate\<close>

lemma pow2_powi: "pow2 k = 2 powi k"
  by (simp add: pow2_def power_int_def inverse_eq_divide power_one_over)

lemma pow2_pos: "0 < pow2 k"
  by (simp add: pow2_powi)

lemma pow2_add: "pow2 (a + b) = pow2 a * pow2 b"
  by (simp add: pow2_powi power_int_add)

lemma pow2_nat: "pow2 (int n) = 2 ^ n"
  by (simp add: pow2_powi)

lemma pow2_1: "pow2 1 = 2"
  by (simp add: pow2_def)

lemma pow2_mono: "a \<le> b \<Longrightarrow> pow2 a \<le> pow2 b"
  unfolding pow2_powi by (rule power_int_increasing) simp_all

lemma binade_bounds:
  assumes "1 \<le> y"
  shows "0 \<le> binade y" and "pow2 (binade y) \<le> y" and "y < pow2 (binade y + 1)"
proof -
  define n where "n = \<lfloor>y\<rfloor>"
  have n: "0 < n" "of_int n \<le> y" "y < of_int n + 1"
    using assms by (simp_all add: n_def) linarith+
  have e: "binade y = bitlen n - 1"
    using assms by (simp add: binade_def n_def)
  from n(1) have b1: "1 \<le> bitlen n"
    by (simp add: bitlen_alt_def)
  then show "0 \<le> binade y"
    by (simp add: e)
  from bitlen_bounds [OF n(1)] have lo: "2 ^ nat (bitlen n - 1) \<le> n" and hi: "n < 2 ^ nat (bitlen n)"
    by simp_all
  have "pow2 (binade y) = of_int (2 ^ nat (bitlen n - 1))"
    using b1 by (simp add: e pow2_def)
  also have "\<dots> \<le> of_int n"
    using lo by (simp only: of_int_le_iff)
  finally show "pow2 (binade y) \<le> y"
    using n(2) by simp
  from hi have "n + 1 \<le> 2 ^ nat (bitlen n)"
    by simp
  then have "(of_int (n + 1) :: rat) \<le> of_int (2 ^ nat (bitlen n))"
    by (simp only: of_int_le_iff)
  moreover have "pow2 (binade y + 1) = of_int (2 ^ nat (bitlen n))"
    using b1 by (simp add: e pow2_def)
  ultimately show "y < pow2 (binade y + 1)"
    using n(3) by simp
qed

lemma binade_unique:
  assumes "0 \<le> e" "pow2 e \<le> y" "y < pow2 (e + 1)"
  shows "binade y = e"
proof -
  have y1: "1 \<le> y"
  proof -
    have "(1 :: rat) \<le> 2 ^ nat e" by simp
    also have "\<dots> = pow2 e" using assms(1) by (simp add: pow2_def)
    finally show ?thesis using assms(2) by simp
  qed
  note b = binade_bounds [OF y1]
  show ?thesis
  proof (rule ccontr)
    assume "binade y \<noteq> e"
    then consider "binade y + 1 \<le> e" | "e + 1 \<le> binade y"
      by linarith
    then show False
    proof cases
      case 1
      then have "pow2 (binade y + 1) \<le> pow2 e"
        by (rule pow2_mono)
      with b(3) assms(2) show False by simp
    next
      case 2
      then have "pow2 (e + 1) \<le> pow2 (binade y)"
        by (rule pow2_mono)
      with b(2) assms(3) show False by simp
    qed
  qed
qed

lemma binade_double:
  assumes "1 \<le> y"
  shows "binade (2 * y) = binade y + 1"
proof (rule binade_unique)
  note b = binade_bounds [OF assms]
  show "0 \<le> binade y + 1" using b(1) by simp
  show "pow2 (binade y + 1) \<le> 2 * y"
    using b(2) by (simp add: pow2_add pow2_1)
  have "pow2 (binade y + 1 + 1) = 2 * pow2 (binade y + 1)"
    by (simp only: pow2_add [of "binade y + 1" 1] pow2_1 mult.commute)
  with b(3) show "2 * y < pow2 (binade y + 1 + 1)"
    by simp
qed

lemma round_even_bounds: "\<lfloor>q\<rfloor> \<le> round_even q" "round_even q \<le> \<lfloor>q\<rfloor> + 1"
  by (simp_all add: round_even_def Let_def)

lemma fl32_normal:
  assumes "1 \<le> y"
  shows "fl32 y = of_int (round_even (y / pow2 (binade y - 23))) * pow2 (binade y - 23)"
  using assms binade_bounds(1) [OF assms] by (simp add: fl32_def Let_def max_def)

lemma fl32_double:
  assumes "1 \<le> y"
  shows "fl32 (2 * y) = 2 * fl32 y"
proof -
  have "pow2 (binade y + 1 - 23) = 2 * pow2 (binade y - 23)"
    using pow2_add [of "binade y - 23" 1] by (simp add: pow2_1)
  moreover from assms have "1 \<le> 2 * y" by simp
  ultimately show ?thesis
    using assms pow2_pos [of "binade y - 23"]
    by (simp add: fl32_normal binade_double)
qed

lemma fl32_bounds:
  assumes "1 \<le> y"
  shows "1 \<le> fl32 y" and "y \<le> 2 * fl32 y" and "fl32 y \<le> 2 * y"
proof -
  let ?e = "binade y" and ?u = "pow2 (binade y - 23)"
  note b = binade_bounds [OF assms]
  have u: "0 < ?u" by (rule pow2_pos)
  have pe: "pow2 ?e = 2 ^ 23 * ?u"
    using pow2_add [of 23 "?e - 23"] pow2_nat [of 23] by simp
  have one: "1 \<le> pow2 ?e"
  proof -
    have "(1 :: rat) \<le> 2 ^ nat ?e" by simp
    with b(1) show ?thesis by (simp add: pow2_def)
  qed
  have "2 ^ 23 \<le> y / ?u"
    using b(2) u by (simp add: pe pos_le_divide_eq)
  then have "(2 ^ 23 :: int) \<le> \<lfloor>y / ?u\<rfloor>"
    by (simp add: le_floor_iff)
  with round_even_bounds(1) [of "y / ?u"] have "(2 ^ 23 :: int) \<le> round_even (y / ?u)"
    by linarith
  then have "(of_int (2 ^ 23) :: rat) \<le> of_int (round_even (y / ?u))"
    by (simp only: of_int_le_iff)
  then have "2 ^ 23 * ?u \<le> of_int (round_even (y / ?u)) * ?u"
    using u by (intro mult_right_mono) simp_all
  then have ge: "pow2 ?e \<le> fl32 y"
    by (simp add: fl32_normal [OF assms] pe)
  with one show "1 \<le> fl32 y" by simp
  from b(3) have "y < 2 * pow2 ?e"
    by (simp add: pow2_add pow2_1)
  with ge show "y \<le> 2 * fl32 y" by simp
  have "of_int (round_even (y / ?u)) \<le> (of_int (\<lfloor>y / ?u\<rfloor> + 1) :: rat)"
    using round_even_bounds(2) [of "y / ?u"] by (simp only: of_int_le_iff)
  also have "\<dots> \<le> y / ?u + 1"
    by simp
  finally have "of_int (round_even (y / ?u)) * ?u \<le> (y / ?u + 1) * ?u"
    using u by (intro mult_right_mono) simp_all
  also have "\<dots> = y + ?u"
    using u by (simp add: field_simps)
  also have "?u \<le> pow2 ?e"
    using u by (simp add: pe)
  finally have "fl32 y \<le> y + pow2 ?e"
    by (simp add: fl32_normal [OF assms])
  with b(2) show "fl32 y \<le> 2 * y" by simp
qed

lemma wrapped_factor: "fl32 (of_int (uint (UINT32_MAX * 2))) = 4294967296"
  by code_simp

lemma wrapped_factor_unsigned: "fl32 (unsigned (UINT32_MAX * 2)) = 4294967296"
  using wrapped_factor by simp

lemma float_to_u32_Some:
  assumes "0 \<le> x" "float_to_u32 x = Some t"
  shows "uint t = \<lfloor>x\<rfloor>"
proof -
  from assms have "0 \<le> \<lfloor>x\<rfloor>" "\<lfloor>x\<rfloor> < 2 ^ 32" "t = word_of_int \<lfloor>x\<rfloor>"
    by (auto simp: float_to_u32_def Let_def split: if_splits)
  then show ?thesis
    by (simp add: uint_word_of_int take_bit_int_eq_self)
qed

lemma Generate_loop_increasing:
  assumes S: "0 < sampleRate" "sampleRate < 2 ^ 31"
    and f: "2 \<le> frequency" "fl32 frequency = frequency"
    and ts: "Generate_loop sampleRate n frequency = Some ts"
  shows "length ts = n \<and> sorted_wrt (<) ts \<and>
         (\<forall>t \<in> set ts.
            \<lfloor>fl32 (fl32 (4294967296 * frequency) / fl32 (of_int sampleRate))\<rfloor> \<le> uint t)"
  using f ts
proof (induction n arbitrary: frequency ts)
  case 0
  then show ?case by simp
next
  case (Suc n)
  let ?s = "fl32 (of_int sampleRate)"
  let ?X = "\<lambda>f. fl32 (fl32 (4294967296 * f) / ?s)"
  from S(1) have "1 \<le> sampleRate"
    by simp
  then have "(of_int 1 :: rat) \<le> of_int sampleRate"
    by (simp only: of_int_le_iff)
  then have S1: "(1 :: rat) \<le> of_int sampleRate"
    by simp
  from S(2) have "sampleRate \<le> 2 ^ 31"
    by simp
  then have "(of_int sampleRate :: rat) \<le> of_int (2 ^ 31)"
    by (simp only: of_int_le_iff)
  with fl32_bounds [OF S1] have s: "1 \<le> ?s" "?s \<le> 2 ^ 32"
    by simp_all
  have scale: "?X (2 * f) = 2 * ?X f \<and> 1 \<le> ?X f" if "2 \<le> f" for f
  proof -
    let ?z = "fl32 (4294967296 * f)"
    from that have cf: "1 \<le> 4294967296 * f" "2 ^ 33 \<le> 4294967296 * f"
      by simp_all
    from fl32_bounds(2) [OF cf(1)] cf(2) have z: "2 ^ 32 \<le> ?z"
      by simp
    with s have zs: "1 \<le> ?z / ?s"
      by (simp add: pos_le_divide_eq)
    have "fl32 (4294967296 * (2 * f)) = 2 * ?z"
      using fl32_double [OF cf(1)] by (simp add: mult.left_commute)
    then have "?X (2 * f) = fl32 (2 * (?z / ?s))"
      by simp
    with fl32_double [OF zs] fl32_bounds(1) [OF zs] show ?thesis
      by simp
  qed
  from Suc.prems(1) have f1: "1 \<le> frequency"
    by simp
  have next_f: "fl32 (frequency * 2) = 2 * frequency"
    using fl32_double [OF f1] Suc.prems(2) by (simp add: mult.commute)
  from Suc.prems(3) S(1) obtain t ts' where
    t: "float_to_u32 (?X frequency) = Some t"
    and ts': "Generate_loop sampleRate n (2 * frequency) = Some ts'"
    and ts: "ts = t # ts'"
    by (auto simp: threshold_def wrapped_factor_unsigned next_f split: option.splits)
  note sc = scale [OF Suc.prems(1)]
  have f2: "2 \<le> 2 * frequency" "fl32 (2 * frequency) = 2 * frequency"
    using Suc.prems(1) next_f fl32_double [OF f1] Suc.prems(2) by simp_all
  from Suc.IH [OF f2 ts'] sc
  have IH: "length ts' = n" "sorted_wrt (<) ts'"
    "\<forall>t' \<in> set ts'. \<lfloor>2 * ?X frequency\<rfloor> \<le> uint t'"
    by simp_all
  from sc have x0: "0 \<le> ?X frequency" "1 \<le> \<lfloor>?X frequency\<rfloor>"
    by (simp_all add: le_floor_iff)
  from float_to_u32_Some [OF x0(1) t] have ut: "uint t = \<lfloor>?X frequency\<rfloor>" .
  have "2 * \<lfloor>?X frequency\<rfloor> \<le> \<lfloor>2 * ?X frequency\<rfloor>"
    by (simp add: le_floor_iff)
  with x0(2) have grow: "\<lfloor>?X frequency\<rfloor> < \<lfloor>2 * ?X frequency\<rfloor>"
    by linarith
  have "t < t'" if "t' \<in> set ts'" for t'
    using IH(3) that grow ut by (auto simp: word_less_def)
  with IH ts ut grow show ?case
    by (auto intro: order_trans less_imp_le)
qed

lemma base_frequency: "2 \<le> WAVETABLE_BASE_FREQ" "fl32 WAVETABLE_BASE_FREQ = WAVETABLE_BASE_FREQ"
  by (simp add: WAVETABLE_BASE_FREQ_def, code_simp)

section \<open>The note table at 44100 Hz\<close>

lemma semitones_bracketed:
  "list_all brackets_semitone (zip [0..<12] (zip semitone_lo semitone_hi))"
  by code_simp

lemma twelfth_root_bracket:
  fixes a b :: int
  assumes "0 \<le> a" "0 \<le> b"
    and "a ^ 12 \<le> 2 ^ j * 10000000000 ^ 12" "2 ^ j * 10000000000 ^ 12 \<le> b ^ 12"
  shows "real_of_int a / 10000000000 \<le> 2 powr (real j / 12)"
    and "2 powr (real j / 12) \<le> real_of_int b / 10000000000"
proof -
  let ?s = "2 powr (real j / 12) :: real"
  have s12: "?s ^ 12 = 2 ^ j"
    by (simp add: powr_realpow [symmetric] powr_powr)
  have "real_of_int (a ^ 12) \<le> real_of_int (2 ^ j * 10000000000 ^ 12)"
    using assms(3) by (rule of_int_le_iff [THEN iffD2])
  then have a: "(real_of_int a / 10000000000) ^ 12 \<le> ?s ^ 12"
    by (simp add: s12 power_divide field_simps)
  have "real_of_int (2 ^ j * 10000000000 ^ 12) \<le> real_of_int (b ^ 12)"
    using assms(4) by (rule of_int_le_iff [THEN iffD2])
  then have b: "?s ^ 12 \<le> (real_of_int b / 10000000000) ^ 12"
    by (simp add: s12 power_divide field_simps)
  show "real_of_int a / 10000000000 \<le> ?s"
  proof (rule ccontr)
    assume "\<not> real_of_int a / 10000000000 \<le> ?s"
    then have "?s < real_of_int a / 10000000000"
      by (simp only: not_le)
    then have "?s ^ 12 < (real_of_int a / 10000000000) ^ 12"
      by (rule power_strict_mono) simp_all
    with a show False by linarith
  qed
  show "?s \<le> real_of_int b / 10000000000"
  proof (rule ccontr)
    assume "\<not> ?s \<le> real_of_int b / 10000000000"
    then have "real_of_int b / 10000000000 < ?s"
      by (simp only: not_le)
    then have "(real_of_int b / 10000000000) ^ 12 < ?s ^ 12"
      using assms(2) by (intro power_strict_mono) simp_all
    with b show False by linarith
  qed
qed

lemma semitone_bounds:
  assumes "j < 12"
  shows "real_of_int (semitone_lo ! j) / 10000000000 \<le> 2 powr (real j / 12)"
    and "2 powr (real j / 12) \<le> real_of_int (semitone_hi ! j) / 10000000000"
proof -
  have len: "length semitone_lo = 12" "length semitone_hi = 12"
    by (simp_all add: semitone_lo_def semitone_hi_def)
  with assms have "(j, semitone_lo ! j, semitone_hi ! j) \<in> set (zip [0..<12] (zip semitone_lo semitone_hi))"
    by (auto simp: set_zip intro!: exI [of _ j])
  with semitones_bracketed have "brackets_semitone (j, semitone_lo ! j, semitone_hi ! j)"
    by (auto simp: list_all_iff)
  then have "0 \<le> semitone_lo ! j" "0 \<le> semitone_hi ! j"
    "semitone_lo ! j ^ 12 \<le> 2 ^ j * 10000000000 ^ 12"
    "2 ^ j * 10000000000 ^ 12 \<le> semitone_hi ! j ^ 12"
    by (simp_all add: brackets_semitone_def)
  from twelfth_root_bracket [OF this]
  show "real_of_int (semitone_lo ! j) / 10000000000 \<le> 2 powr (real j / 12)"
    and "2 powr (real j / 12) \<le> real_of_int (semitone_hi ! j) / 10000000000"
    by simp_all
qed

lemma note_rate_split:
  "note_rate SAMPLE_RATE i =
     4294967295 * 440 / 44100 * (2 ^ ((i + 3) div 12) / 4) * 2 powr (real ((i + 3) mod 12) / 12)"
proof -
  define m j where "m = (i + 3) div 12" and "j = (i + 3) mod 12"
  have "i + 3 = 12 * m + j"
    by (simp add: m_def j_def)
  then have "real i + 3 = 12 * real m + real j"
    by (metis of_nat_add of_nat_mult of_nat_numeral)
  then have "(real i - 21) / 12 = real m + (- 2) + real j / 12"
    by simp
  then have "2 powr ((real i - 21) / 12) = 2 powr (real m) * 2 powr (- 2) * 2 powr (real j / 12)"
    by (simp only: powr_add)
  also have "\<dots> = 2 ^ m / 4 * 2 powr (real j / 12)"
    by (simp add: powr_realpow powr_minus_divide)
  finally show ?thesis
    by (simp add: note_rate_def SAMPLE_RATE_def NOTE_A_440_def m_def j_def)
qed

lemma note_rate_44100_bounds:
  "4294967295 * 440 / 44100 * (2 ^ ((i + 3) div 12) / 4) * (real_of_int (semitone_lo ! ((i + 3) mod 12)) / 10000000000)
     \<le> note_rate SAMPLE_RATE i"
  "note_rate SAMPLE_RATE i
     \<le> 4294967295 * 440 / 44100 * (2 ^ ((i + 3) div 12) / 4) * (real_of_int (semitone_hi ! ((i + 3) mod 12)) / 10000000000)"
  unfolding note_rate_split
  using semitone_bounds [of "(i + 3) mod 12"]
  by (auto intro!: mult_left_mono)

lemma near_note_rate_44100:
  "list_all near_note_rate (zip [0..<36] noteToPhaseRate_44100)"
  by code_simp

lemma near_note_rate_real:
  assumes "near_note_rate (i, n)"
  shows "\<bar>real_of_int (uint n) - note_rate SAMPLE_RATE i\<bar> < 2"
proof -
  let ?m = "(i + 3) div 12" and ?j = "(i + 3) mod 12"
  from assms have
    "(uint n - 2) * (44100 * 4 * 10000000000) < 4294967295 * 440 * 2 ^ ?m * semitone_lo ! ?j"
    "4294967295 * 440 * 2 ^ ?m * semitone_hi ! ?j < (uint n + 2) * (44100 * 4 * 10000000000)"
    by (simp_all add: near_note_rate_def)
  then have
    "real_of_int ((uint n - 2) * (44100 * 4 * 10000000000))
       < real_of_int (4294967295 * 440 * 2 ^ ?m * semitone_lo ! ?j)"
    "real_of_int (4294967295 * 440 * 2 ^ ?m * semitone_hi ! ?j)
       < real_of_int ((uint n + 2) * (44100 * 4 * 10000000000))"
    by (simp_all only: of_int_less_iff)
  then have
    "real_of_int (uint n) - 2
       < 4294967295 * 440 / 44100 * (2 ^ ?m / 4) * (real_of_int (semitone_lo ! ?j) / 10000000000)"
    "4294967295 * 440 / 44100 * (2 ^ ?m / 4) * (real_of_int (semitone_hi ! ?j) / 10000000000)
       < real_of_int (uint n) + 2"
    by (simp_all add: field_simps)
  with note_rate_44100_bounds [of i] show ?thesis
    by (simp add: abs_less_iff)
qed

lemma note_table_44100: "note_table SAMPLE_RATE noteToPhaseRate_44100"
proof -
  have len: "length noteToPhaseRate_44100 = 36"
    by (simp add: noteToPhaseRate_44100_def)
  have "\<bar>real_of_int (uint (noteToPhaseRate_44100 ! i)) - note_rate SAMPLE_RATE i\<bar> < 2"
    if "i < 36" for i
  proof -
    from that len have "(i, noteToPhaseRate_44100 ! i) \<in> set (zip [0..<36] noteToPhaseRate_44100)"
      by (auto simp: set_zip intro!: exI [of _ i])
    with near_note_rate_44100 have "near_note_rate (i, noteToPhaseRate_44100 ! i)"
      by (auto simp: list_all_iff)
    then show ?thesis
      by (rule near_note_rate_real)
  qed
  with len show ?thesis
    by (simp add: note_table_def NUM_OCTAVES_def NOTES_PER_OCTAVE_def)
qed

lemma note_table_C0_nonzero:
  assumes "note_table SAMPLE_RATE nt"
  shows "nt ! 0 \<noteq> 0"
proof
  assume z: "nt ! 0 = 0"
  from assms have "\<bar>real_of_int (uint (nt ! 0)) - note_rate SAMPLE_RATE 0\<bar> < 2"
    by (simp add: note_table_def NUM_OCTAVES_def NOTES_PER_OCTAVE_def)
  with z have small: "note_rate SAMPLE_RATE 0 < 2"
    by simp
  have "(2::real) powr (- 2) \<le> 2 powr ((real 0 - 21) / 12)"
    by (intro powr_mono) auto
  moreover have "(2::real) powr (- 2) = 1 / 4"
    by (simp add: powr_minus_divide)
  ultimately have "1 / 4 \<le> (2::real) powr ((real 0 - 21) / 12)"
    by simp
  then have "4294967295 * (440 * (1 / 4) / 44100) \<le> note_rate SAMPLE_RATE 0"
    unfolding note_rate_def SAMPLE_RATE_def NOTE_A_440_def
    by (simp add: field_simps)
  with small show False
    by simp
qed

section \<open>The claims\<close>

lemmas player_defs =
  MMLPlayer_new_def MMLPlayer_init_def Load_def toupper_def IsDone_def

lemmas tick_defs =
  Tick_def Tick_loop.simps Tick_switch_def song_at_def ReadNumber_def note_command_def
  note_at_def is_space_def is_note_letter_def NUM_OCTAVES_def NOTES_PER_OCTAVE_def
  letterToNoteNumber_def lengthNumberToTickCount_def Let_def

text \<open>
  At the bottom of the range the guard \<^verbatim>\<open>pitch < 0\<close> does fire: C flat in octave 0 is
  played as C, entry 0 of the table.
\<close>

lemma bottom_octave_flat_is_nudged:
  "song_events nt 1 4 (song_text ''O0C-0'') = Some [(nt ! 0, 5)]"
  by (simp add: events_eval)

text \<open>
  C1 (fails on the code). The text \<^verbatim>\<open>O2B#0\<close> asks for B sharp in the top octave. The guard
  \<^verbatim>\<open>pitch >= NUM_OCTAVES * NOTES_PER_OCTAVE\<close> compares the semitone within the octave
  (12 here) with 36, so it does not fire, and the subscript is \<open>12 + 2 * 12 = 36\<close>, one
  past the last entry of the table of 36.
\<close>

theorem top_octave_sharp_index_out_of_range:
  "Tick (MMLPlayer_new nt ''O2B#0'') = Inl (note_index_out_of_range 36)"
  by (simp add: player_defs tick_defs)

text \<open>
  C8. The text \<^verbatim>\<open>Z4\<close>: the first call of \<^verbatim>\<open>Tick\<close> throws the domain error for an
  invalid character, before any sample has been appended, and the renderer returns that
  error and no samples.
\<close>

theorem Z4_raises_domain_error:
  "Tick (MMLPlayer_new nt ''Z4'') = Inl (domain_error ''Invalid character in song string'')
   \<and> GenerateSongSquareWave topPhaseRate nt pcm ''Z4'' =
       Inl (domain_error ''Invalid character in song string'')"
  by (simp add: GenerateSongSquareWave_def song_loop.simps player_defs tick_defs)

text \<open>
  C2 (amended). The text \<^verbatim>\<open>R0\<close> makes the sequencer return phase rate 0 on
  \<open>(4 + 1) * lengthNumberToTickCount[0] = 5\<close> ticks for the rest and on one more tick, the
  one that consumes the terminator; the renderer emits six blocks of \<open>TICK_LENGTH\<close>
  samples, all zero: 16200 samples, not 13500.
\<close>

theorem R0_renders_six_silent_ticks:
  "(tempo (MMLPlayer_new nt ''R0'') + 1) * lengthNumberToTickCount ! 0 = 5
   \<and> song_ticks (MMLPlayer_new nt ''R0'') = Inr (replicate 5 0 @ [0])
   \<and> GenerateSongSquareWave topPhaseRate nt pcm ''R0'' = Inr (replicate (6 * TICK_LENGTH) 0)"
proof -
  have ev: "song_events nt 1 4 (song_text ''R0'') = Some [(0, 5)]"
    by (simp add: events_eval)
  have et: "event_ticks [(0 :: u32, 5 :: nat)] = replicate 5 0 @ []"
    by (simp add: event_ticks_def)
  have "GenerateSongSquareWave topPhaseRate nt pcm ''R0'' = Inr (replicate (6 * TICK_LENGTH) 0)"
    using et render_of_events(2) [OF ev, of topPhaseRate pcm]
    by (simp only: render_ticks_silence) (simp add: replicate_add [symmetric])
  with render_of_events(1) [OF ev] et show ?thesis
    by (simp add: lengthNumberToTickCount_def)
qed

text \<open>
  C2 as stated fails: the output for \<^verbatim>\<open>R0\<close> is not 5 * 2700 zero samples.
\<close>

theorem R0_not_five_ticks:
  "GenerateSongSquareWave topPhaseRate_44100 noteToPhaseRate_44100 square_pcm ''R0''
     \<noteq> Inr (replicate ((4 + 1) * 1 * 2700) 0)"
proof -
  have ev: "song_events noteToPhaseRate_44100 1 4 (song_text ''R0'') = Some [(0, 5)]"
    by (simp add: events_eval)
  have "event_ticks [(0 :: u32, 5 :: nat)] = replicate 5 0 @ []"
    by (simp add: event_ticks_def)
  then have "GenerateSongSquareWave topPhaseRate_44100 noteToPhaseRate_44100 square_pcm ''R0''
     = Inr (replicate (6 * TICK_LENGTH) 0)"
    using render_of_events(2) [OF ev, of topPhaseRate_44100 square_pcm]
    by (simp only: render_ticks_silence) (simp add: replicate_add [symmetric])
  then show ?thesis
    by (simp add: TICK_LENGTH_def)
qed

text \<open>
  C3 (amended). For a text that reads as a list of events, the renderer returns after
  one tick per tick-count of every note and rest, plus one tick for the terminator, and
  the number of samples is \<open>TICK_LENGTH\<close> times that number of ticks. That the function
  returns at all is the termination of \<open>song_loop\<close>, proved with its definition.
\<close>

theorem valid_song_sample_count:
  assumes "song_events nt 1 4 (song_text s) = Some evs"
  shows "\<exists>rs data.
           song_ticks (MMLPlayer_new nt s) = Inr rs
         \<and> length rs = sum_list (map snd evs) + 1
         \<and> GenerateSongSquareWave topPhaseRate nt pcm s = Inr data
         \<and> length data = TICK_LENGTH * (sum_list (map snd evs) + 1)"
  using render_of_events(1) [OF assms] render_of_events(2) [OF assms, of topPhaseRate pcm]
  by (simp add: length_render_ticks length_event_ticks)

text \<open>
  The hypothesis of C3 (amended) holds for a song of three notes and a rest, for one.
\<close>

theorem valid_song_sample_count_witness:
  "song_events noteToPhaseRate_44100 1 4 (song_text ''t3 o0 c3 g-3 > r1 e+5'')
     = Some [(12740059, 16), (18017164, 16), (0, 8), (34011878, 32)]
   \<and> (\<exists>rs data.
           song_ticks (MMLPlayer_new noteToPhaseRate_44100 ''t3 o0 c3 g-3 > r1 e+5'') = Inr rs
         \<and> length rs = 73
         \<and> GenerateSongSquareWave topPhaseRate_44100 noteToPhaseRate_44100 square_pcm
              ''t3 o0 c3 g-3 > r1 e+5'' = Inr data
         \<and> length data = TICK_LENGTH * 73)"
proof -
  have ev: "song_events noteToPhaseRate_44100 1 4 (song_text ''t3 o0 c3 g-3 > r1 e+5'')
     = Some [(12740059, 16), (18017164, 16), (0, 8), (34011878, 32)]"
    by (simp add: events_eval noteToPhaseRate_44100_def)
  from valid_song_sample_count [OF ev, of topPhaseRate_44100 square_pcm] ev
  show ?thesis
    by simp
qed

text \<open>
  C3 as stated fails: for the one note \<^verbatim>\<open>C4\<close>, of 30 ticks, the sample count is
  \<open>31 * TICK_LENGTH\<close>, not the sum over the notes and rests, \<open>30 * TICK_LENGTH\<close>.
\<close>

theorem one_note_sample_count_exceeds_sum:
  "song_events noteToPhaseRate_44100 1 4 (song_text ''C4'') = Some [(25480118, 30)]
   \<and> GenerateSongSquareWave topPhaseRate_44100 noteToPhaseRate_44100 square_pcm ''C4''
       = Inr (render_ticks topPhaseRate_44100 square_pcm (replicate 30 25480118) 0
              @ replicate TICK_LENGTH 0)
   \<and> length (render_ticks topPhaseRate_44100 square_pcm (replicate 30 25480118) 0
              @ replicate TICK_LENGTH 0)
       \<noteq> TICK_LENGTH * sum_list (map snd [(25480118 :: u32, 30 :: nat)])"
proof -
  have ev: "song_events noteToPhaseRate_44100 1 4 (song_text ''C4'') = Some [(25480118, 30)]"
    by (simp add: events_eval noteToPhaseRate_44100_def)
  have "event_ticks [(25480118 :: u32, 30 :: nat)] = replicate 30 25480118"
    by (simp add: event_ticks_def)
  with render_of_events(2) [OF ev, of topPhaseRate_44100 square_pcm] ev
  show ?thesis
    by (simp add: length_render_ticks TICK_LENGTH_def)
qed

text \<open>
  C10. Whenever the renderer returns samples, the text reads as a list of events, the
  last tick of the sequencer is the one that consumes the terminator and carries phase
  rate 0, and the output is the samples of the notes and rests, \<open>TICK_LENGTH\<close> for each
  of their ticks, followed by one block of \<open>TICK_LENGTH\<close> zero samples.
\<close>

theorem terminal_tick_is_rendered_as_silence:
  assumes "GenerateSongSquareWave topPhaseRate nt pcm s = Inr data"
  shows "\<exists>evs. song_events nt 1 4 (song_text s) = Some evs
         \<and> song_ticks (MMLPlayer_new nt s) = Inr (event_ticks evs @ [0])
         \<and> data = render_ticks topPhaseRate pcm (event_ticks evs) 0 @ replicate TICK_LENGTH 0
         \<and> length (render_ticks topPhaseRate pcm (event_ticks evs) 0)
             = TICK_LENGTH * sum_list (map snd evs)"
proof -
  from assms render_returns_iff [of topPhaseRate nt pcm s]
  obtain evs where ev: "song_events nt 1 4 (song_text s) = Some evs"
    by auto
  from render_of_events(1) [OF ev] render_of_events(2) [OF ev, of topPhaseRate pcm] assms ev
  show ?thesis
    by (simp add: length_render_ticks length_event_ticks)
qed

text \<open>
  The empty text is rendered without error, as one block of silence.
\<close>

theorem terminal_tick_is_rendered_as_silence_witness:
  "GenerateSongSquareWave topPhaseRate_44100 noteToPhaseRate_44100 square_pcm ''''
     = Inr (replicate TICK_LENGTH 0)
   \<and> (\<exists>evs. song_events noteToPhaseRate_44100 1 4 (song_text '''') = Some evs
         \<and> song_ticks (MMLPlayer_new noteToPhaseRate_44100 '''') = Inr (event_ticks evs @ [0])
         \<and> replicate TICK_LENGTH 0
             = render_ticks topPhaseRate_44100 square_pcm (event_ticks evs) 0 @ replicate TICK_LENGTH 0
         \<and> length (render_ticks topPhaseRate_44100 square_pcm (event_ticks evs) 0)
             = TICK_LENGTH * sum_list (map snd evs))"
proof -
  have ev: "song_events noteToPhaseRate_44100 1 4 (song_text '''') = Some []"
    by (simp add: events_eval)
  have h: "GenerateSongSquareWave topPhaseRate_44100 noteToPhaseRate_44100 square_pcm ''''
     = Inr (replicate TICK_LENGTH 0)"
    using render_of_events(2) [OF ev, of topPhaseRate_44100 square_pcm]
    by (simp add: event_ticks_def)
  from terminal_tick_is_rendered_as_silence [OF h] h show ?thesis
    by simp
qed

text \<open>
  C4. With the note table of the constructor at 44100 Hz, the text \<^verbatim>\<open>T4 O0 C8\<close>
  makes the sequencer return the phase rate \<open>noteToPhaseRate[0]\<close>, C in octave 0, which
  is not zero, on exactly \<open>(4 + 1) * lengthNumberToTickCount[8] = 120\<close> ticks in a row,
  then 0 on the tick that ends the song; the renderer emits \<open>TICK_LENGTH\<close> samples for
  each of the 120 ticks, read off the table at a phase that advances by the phase rate from
  sample to sample, and then the block of silence.
\<close>

theorem T4_O0_C8_holds_C_for_120_ticks:
  assumes "note_table SAMPLE_RATE nt"
  shows "(4 + 1) * lengthNumberToTickCount ! 8 = 120
       \<and> nt ! 0 \<noteq> 0
       \<and> song_ticks (MMLPlayer_new nt ''T4 O0 C8'') = Inr (replicate 120 (nt ! 0) @ [0])
       \<and> GenerateSongSquareWave topPhaseRate nt pcm ''T4 O0 C8'' =
           Inr (map (\<lambda>j. pcm (of_nat j * nt ! 0) (GetTable topPhaseRate (nt ! 0)))
                    [0..<120 * TICK_LENGTH]
                @ replicate TICK_LENGTH 0)"
proof -
  have ev: "song_events nt 1 4 (song_text ''T4 O0 C8'') = Some [(nt ! 0, 120)]"
    by (simp add: events_eval)
  have et: "event_ticks [(nt ! 0, 120 :: nat)] = replicate 120 (nt ! 0) @ []"
    by (simp add: event_ticks_def)
  note nz = note_table_C0_nonzero [OF assms]
  have "render_ticks topPhaseRate pcm (replicate 120 (nt ! 0) @ []) 0 =
          map (\<lambda>j. pcm (of_nat j * nt ! 0) (GetTable topPhaseRate (nt ! 0))) [0..<120 * TICK_LENGTH]"
    by (simp only: render_ticks_sounding [OF nz]) simp
  with render_of_events(1) [OF ev] render_of_events(2) [OF ev, of topPhaseRate pcm] nz
  show ?thesis
    by (simp add: et lengthNumberToTickCount_def del: replicate.simps)
qed

text \<open>
  The table of 36 entries that IEEE double arithmetic gives at 44100 Hz satisfies the
  hypothesis of C4.
\<close>

theorem T4_O0_C8_holds_C_for_120_ticks_witness:
  "note_table SAMPLE_RATE noteToPhaseRate_44100
   \<and> ((4 + 1) * lengthNumberToTickCount ! 8 = 120
       \<and> noteToPhaseRate_44100 ! 0 \<noteq> 0
       \<and> song_ticks (MMLPlayer_new noteToPhaseRate_44100 ''T4 O0 C8'')
           = Inr (replicate 120 (noteToPhaseRate_44100 ! 0) @ [0])
       \<and> GenerateSongSquareWave topPhaseRate_44100 noteToPhaseRate_44100 square_pcm ''T4 O0 C8'' =
           Inr (map (\<lambda>j. square_pcm (of_nat j * noteToPhaseRate_44100 ! 0)
                            (GetTable topPhaseRate_44100 (noteToPhaseRate_44100 ! 0)))
                    [0..<120 * TICK_LENGTH]
                @ replicate TICK_LENGTH 0))"
  using note_table_44100 T4_O0_C8_holds_C_for_120_ticks [OF note_table_44100]
  by (rule conjI)

text \<open>
  C5. For a bank of eight thresholds in ascending order, \<^verbatim>\<open>GetTable\<close> returns a level
  \<open>k \<le> 7\<close> such that every lower level has a threshold below the requested rate and,
  unless \<open>k\<close> is the last level, level \<open>k\<close> has a threshold at or above it: the lowest
  level whose threshold is at or above the rate, or the last level when there is none.
\<close>

theorem GetTable_lowest_level:
  assumes "length topPhaseRate = WAVETABLE_NUM_TABLES" and "sorted topPhaseRate"
  shows "GetTable topPhaseRate phaseRate \<le> WAVETABLE_NUM_TABLES - 1
    \<and> (\<forall>i < GetTable topPhaseRate phaseRate. topPhaseRate ! i < phaseRate)
    \<and> (GetTable topPhaseRate phaseRate \<noteq> WAVETABLE_NUM_TABLES - 1 \<longrightarrow>
          phaseRate \<le> topPhaseRate ! GetTable topPhaseRate phaseRate)
    \<and> GetTable topPhaseRate phaseRate =
        (if \<exists>i < WAVETABLE_NUM_TABLES. phaseRate \<le> topPhaseRate ! i
         then LEAST i. phaseRate \<le> topPhaseRate ! i
         else WAVETABLE_NUM_TABLES - 1)"
proof -
  let ?k = "GetTable topPhaseRate phaseRate"
  have "0 + (WAVETABLE_NUM_TABLES - 1) \<le> length topPhaseRate"
    using assms(1) by simp
  from lower_bound_correct [OF assms(2) this, of phaseRate]
  have k: "?k \<le> WAVETABLE_NUM_TABLES - 1" "\<forall>i < ?k. topPhaseRate ! i < phaseRate"
    "?k < WAVETABLE_NUM_TABLES - 1 \<longrightarrow> phaseRate \<le> topPhaseRate ! ?k"
    by (simp_all add: GetTable_def)
  have "?k = (LEAST i. phaseRate \<le> topPhaseRate ! i)"
    if "i < WAVETABLE_NUM_TABLES" "phaseRate \<le> topPhaseRate ! i" for i
  proof -
    have "phaseRate \<le> topPhaseRate ! ?k"
    proof (cases "?k < WAVETABLE_NUM_TABLES - 1")
      case True
      with k(3) show ?thesis by simp
    next
      case False
      with k(1) have "?k = WAVETABLE_NUM_TABLES - 1" by simp
      moreover from that k(2) have "\<not> i < ?k" by (auto simp: not_less [symmetric])
      ultimately have "i = ?k" using that(1) by simp
      with that(2) show ?thesis by simp
    qed
    moreover have "?k \<le> j" if "phaseRate \<le> topPhaseRate ! j" for j
      using that k(2) by (meson not_less)
    ultimately show ?thesis
      by (intro Least_equality [symmetric])
  qed
  moreover have "?k = WAVETABLE_NUM_TABLES - 1"
    if "\<not> (\<exists>i < WAVETABLE_NUM_TABLES. phaseRate \<le> topPhaseRate ! i)"
  proof (rule ccontr)
    assume "?k \<noteq> WAVETABLE_NUM_TABLES - 1"
    with k have "?k < WAVETABLE_NUM_TABLES" "phaseRate \<le> topPhaseRate ! ?k"
      by auto
    with that show False by blast
  qed
  ultimately show ?thesis
    using k by auto
qed

text \<open>
  The thresholds at 44100 Hz are in ascending order, and the phase rate of C in octave 0
  selects level 2.
\<close>

theorem GetTable_lowest_level_witness:
  "length topPhaseRate_44100 = WAVETABLE_NUM_TABLES \<and> sorted topPhaseRate_44100
   \<and> GetTable topPhaseRate_44100 12740059 = 2
   \<and> topPhaseRate_44100 ! 0 < 12740059
   \<and> topPhaseRate_44100 ! 1 < 12740059
   \<and> 12740059 \<le> topPhaseRate_44100 ! 2
   \<and> (LEAST i. 12740059 \<le> topPhaseRate_44100 ! i) = 2"
proof -
  have k: "GetTable topPhaseRate_44100 12740059 = 2"
    by (simp add: GetTable_def WAVETABLE_NUM_TABLES_def topPhaseRate_44100_def lower_bound.simps)
  note t = GetTable_lowest_level [OF topPhaseRate_44100_sorted, of 12740059, unfolded k]
  from t have "\<forall>i<2. topPhaseRate_44100 ! i < 12740059"
    by blast
  then have lt: "topPhaseRate_44100 ! 0 < 12740059" "topPhaseRate_44100 ! 1 < 12740059"
    by simp_all
  from t have ge: "12740059 \<le> topPhaseRate_44100 ! 2"
    by (simp add: WAVETABLE_NUM_TABLES_def)
  then have "\<exists>i<WAVETABLE_NUM_TABLES. 12740059 \<le> topPhaseRate_44100 ! i"
    by (auto simp: WAVETABLE_NUM_TABLES_def intro!: exI [of _ 2])
  with t have "(LEAST i. 12740059 \<le> topPhaseRate_44100 ! i) = 2"
    by simp
  with topPhaseRate_44100_sorted k lt ge show ?thesis
    by simp
qed

text \<open>
  C6. Whenever \<^verbatim>\<open>Generate\<close> is given a positive \<^verbatim>\<open>int\<close> sample rate and every one of its
  conversions to \<^verbatim>\<open>uint32_t\<close> is defined, it leaves eight thresholds that increase
  strictly with the level. Nothing changes them afterwards: \<open>GetTable\<close> only reads them,
  and the renderer passes the same list to every call.
\<close>

theorem thresholds_strictly_increasing:
  assumes "0 < sampleRate" "sampleRate < 2 ^ 31"
    and "Generate_topPhaseRate sampleRate = Some topPhaseRate"
  shows "length topPhaseRate = WAVETABLE_NUM_TABLES \<and> sorted_wrt (<) topPhaseRate"
  using Generate_loop_increasing [OF assms(1,2) base_frequency
    assms(3) [unfolded Generate_topPhaseRate_def]]
  by simp

text \<open>
  At \<^verbatim>\<open>SAMPLE_RATE\<close>, the one rate the program constructs a bank for, the conversions are
  defined, and these are the thresholds.
\<close>

theorem thresholds_strictly_increasing_witness:
  "0 < SAMPLE_RATE \<and> SAMPLE_RATE < 2 ^ 31
   \<and> Generate_topPhaseRate SAMPLE_RATE =
       Some [3895662, 7791324, 15582648, 31165296, 62330592, 124661184, 249322368, 498644736]
   \<and> length [3895662, 7791324, 15582648, 31165296, 62330592, 124661184, 249322368,
              498644736 :: u32] = WAVETABLE_NUM_TABLES
   \<and> sorted_wrt (<)
       [3895662, 7791324, 15582648, 31165296, 62330592, 124661184, 249322368, 498644736 :: u32]"
proof -
  have r: "0 < SAMPLE_RATE" "SAMPLE_RATE < 2 ^ 31"
    by (simp_all add: SAMPLE_RATE_def)
  have g: "Generate_topPhaseRate SAMPLE_RATE =
     Some [3895662, 7791324, 15582648, 31165296, 62330592, 124661184, 249322368, 498644736]"
    by code_simp
  from thresholds_strictly_increasing [OF r g] r g show ?thesis
    by (intro conjI) simp_all
qed

end
